theory Spec2Isabelle
  imports Complex_Main
begin

section \<open>PyTierra: cells held by identity\<close>

text \<open>
  The Python code passes \<open>Cell\<close> objects around by reference and compares them with
  \<open>is\<close>. The model names every cell by the number \<open>Cell._id\<close> it gets from the class
  counter \<open>Cell._next_id\<close>; the scheduler queue, the reaper queue and the owner index
  hold these numbers, and the cells themselves live in a store (see the simulation
  record below).
\<close>

type_synonym cell_id = nat

datatype py_error = IndexError | ValueError

text \<open>
  Indexing a \<open>collections.deque\<close> (or a list) with a Python integer: a negative index
  counts from the end, anything outside raises \<open>IndexError\<close>.
\<close>

definition py_index :: "'a list \<Rightarrow> int \<Rightarrow> py_error + 'a" where
  "py_index xs i =
     (if 0 \<le> i \<and> i < int (length xs) then Inr (xs ! nat i)
      else if i < 0 \<and> - int (length xs) \<le> i then Inr (xs ! nat (int (length xs) + i))
      else Inl IndexError)"

text \<open>
  \<open>for i, c in enumerate(queue): if c is cell: idx = i; break\<close>:
  the position of the first occurrence, \<open>None\<close> when there is none.
\<close>

fun index_of :: "'a \<Rightarrow> 'a list \<Rightarrow> nat option" where
  "index_of c [] = None"
| "index_of c (x # xs) =
     (if x = c then Some 0
      else (case index_of c xs of None \<Rightarrow> None | Some i \<Rightarrow> Some (Suc i)))"

text \<open>\<open>del queue[idx]\<close> for an index inside the queue.\<close>

definition del_at :: "nat \<Rightarrow> 'a list \<Rightarrow> 'a list" where
  "del_at i xs = take i xs @ drop (Suc i) xs"

section \<open>Scheduler (scheduler.py)\<close>

record scheduler =
  sched_queue :: "cell_id list"
  current_idx :: int

definition Scheduler_init :: scheduler where
  "Scheduler_init = \<lparr>sched_queue = [], current_idx = 0\<rparr>"

definition sched_add :: "cell_id \<Rightarrow> scheduler \<Rightarrow> scheduler" where
  "sched_add c s = s\<lparr>sched_queue := sched_queue s @ [c]\<rparr>"

definition sched_remove :: "cell_id \<Rightarrow> scheduler \<Rightarrow> scheduler" where
  "sched_remove c s =
     (case index_of c (sched_queue s) of
        None \<Rightarrow> s
      | Some idx \<Rightarrow>
          (let q = del_at idx (sched_queue s);
               s1 = s\<lparr>sched_queue := q\<rparr>
           in if int idx < current_idx s then s1\<lparr>current_idx := current_idx s - 1\<rparr>
              else if int idx = current_idx s \<and> current_idx s \<ge> int (length q)
                   then s1\<lparr>current_idx := 0\<rparr>
              else s1))"

text \<open>
  \<open>current()\<close> may reset the cursor, so it returns the scheduler too. The result is
  \<open>Inr None\<close> for Python's \<open>None\<close>, \<open>Inr (Some c)\<close> for a cell and \<open>Inl IndexError\<close>
  where \<open>self.queue[self._current_idx]\<close> would raise.
\<close>

definition sched_current :: "scheduler \<Rightarrow> (py_error + cell_id option) \<times> scheduler" where
  "sched_current s =
     (if sched_queue s = [] then (Inr None, s)
      else
        (let s1 = (if current_idx s \<ge> int (length (sched_queue s))
                   then s\<lparr>current_idx := 0\<rparr> else s)
         in (case py_index (sched_queue s1) (current_idx s1) of
               Inl e \<Rightarrow> (Inl e, s1)
             | Inr c \<Rightarrow> (Inr (Some c), s1))))"

definition sched_advance :: "scheduler \<Rightarrow> scheduler" where
  "sched_advance s =
     (if sched_queue s \<noteq> []
      then s\<lparr>current_idx := (current_idx s + 1) mod int (length (sched_queue s))\<rparr>
      else s)"

definition num_cells :: "scheduler \<Rightarrow> int" where
  "num_cells s = int (length (sched_queue s))"

datatype sched_op = Add cell_id | Remove cell_id | Advance

fun apply_sched_op :: "scheduler \<Rightarrow> sched_op \<Rightarrow> scheduler" where
  "apply_sched_op s (Add c) = sched_add c s"
| "apply_sched_op s (Remove c) = sched_remove c s"
| "apply_sched_op s Advance = sched_advance s"

definition run_sched_ops :: "sched_op list \<Rightarrow> scheduler" where
  "run_sched_ops ops = foldl apply_sched_op Scheduler_init ops"

section \<open>The random generator\<close>

text \<open>
  Every draw in the code comes from Python's global \<open>random\<close> module. The model
  threads the generator through as a stream of naturals: a draw takes the head and
  leaves the tail. \<open>random.randint(a, b)\<close> (for \<open>a \<le> b\<close>, which every call site
  modelled here guarantees) reduces the head into \<open>[a, b]\<close>, and every value of that
  range is reached by some stream. \<open>random.choice(seq)\<close> on a non-empty sequence draws
  an index the same way.
\<close>

type_synonym rng = "nat \<Rightarrow> nat"

definition rng_tail :: "rng \<Rightarrow> rng" where
  "rng_tail g = (\<lambda>i. g (Suc i))"

definition randint :: "int \<Rightarrow> int \<Rightarrow> rng \<Rightarrow> int \<times> rng" where
  "randint a b g = (a + int (g 0 mod nat (b - a + 1)), rng_tail g)"

definition choice :: "'a list \<Rightarrow> rng \<Rightarrow> 'a \<times> rng" where
  "choice xs g = (xs ! (g 0 mod length xs), rng_tail g)"

section \<open>Soup (soup.py)\<close>

text \<open>
  A free block is the Python list \<open>[pos, size]\<close>; an owner entry is the tuple
  \<open>(pos, size, cell)\<close>. The byte array \<open>data\<close> (numpy \<open>uint8\<close>) is a list of integers,
  every write reduced by \<open>& 0xFF\<close>.
\<close>

type_synonym block = "int \<times> int"

record soup =
  size_soup :: int
  data :: "int list"
  free_blocks :: "block list"
  owners :: "(int \<times> int \<times> cell_id) list"

definition Soup_init :: "int \<Rightarrow> soup" where
  "Soup_init n = \<lparr>size_soup = n, data = replicate (nat n) 0,
                  free_blocks = [(0, n)], owners = []\<rparr>"

definition read :: "soup \<Rightarrow> int \<Rightarrow> int" where
  "read s addr = data s ! nat (addr mod size_soup s)"

definition write_s :: "soup \<Rightarrow> int \<Rightarrow> int \<Rightarrow> soup" where
  "write_s s addr v = s\<lparr>data := (data s)[nat (addr mod size_soup s) := v mod 256]\<rparr>"

text \<open>
  A slice \<open>xs[a:b]\<close> with step 1: a negative bound counts from the end, and both bounds are
  clipped to the sequence.
\<close>

definition slice_bound :: "'a list \<Rightarrow> int \<Rightarrow> nat" where
  "slice_bound xs i =
     (if i < 0 then nat (max 0 (i + int (length xs))) else nat (min i (int (length xs))))"

definition py_slice :: "'a list \<Rightarrow> int \<Rightarrow> int \<Rightarrow> 'a list" where
  "py_slice xs a b = take (slice_bound xs b - slice_bound xs a) (drop (slice_bound xs a) xs)"

text \<open>
  \<open>read_block\<close>: the slice \<open>data[addr:addr+size]\<close>, or, when it passes the end, the two
  slices \<open>data[addr:]\<close> and \<open>data[:size - (self.size - addr)]\<close>.
\<close>

definition read_block :: "soup \<Rightarrow> int \<Rightarrow> int \<Rightarrow> int list" where
  "read_block s addr0 n =
     (let addr = addr0 mod size_soup s
      in if addr + n \<le> size_soup s
         then py_slice (data s) addr (addr + n)
         else py_slice (data s) addr (int (length (data s)))
              @ py_slice (data s) 0 (n - (size_soup s - addr)))"

text \<open>The block-selection loops of \<open>allocate\<close>, one per mode.\<close>

fun first_fit :: "block list \<Rightarrow> int \<Rightarrow> nat \<Rightarrow> nat option" where
  "first_fit [] n i = None"
| "first_fit ((pos, sz) # bs) n i = (if sz \<ge> n then Some i else first_fit bs n (Suc i))"

text \<open>
  Mode 1 keeps \<open>(best_idx, best_size)\<close>; \<open>None\<close> stands for the start values
  \<open>None\<close> and \<open>float("inf")\<close>, below which every block size lies.
\<close>

fun better_fit :: "block list \<Rightarrow> int \<Rightarrow> nat \<Rightarrow> (nat \<times> int) option \<Rightarrow> (nat \<times> int) option" where
  "better_fit [] n i best = best"
| "better_fit ((pos, sz) # bs) n i best =
     better_fit bs n (Suc i)
       (if sz \<ge> n \<and> (case best of None \<Rightarrow> True | Some (bi, bsz) \<Rightarrow> sz < bsz)
        then Some (i, sz) else best)"

fun adequate :: "block list \<Rightarrow> int \<Rightarrow> nat \<Rightarrow> nat list" where
  "adequate [] n i = []"
| "adequate ((pos, sz) # bs) n i =
     (if sz \<ge> n then i # adequate bs n (Suc i) else adequate bs n (Suc i))"

text \<open>Modes 3 to 6 keep \<open>(best_idx, best_dist)\<close> for the wrap-aware distance to the hint.\<close>

fun near_fit :: "int \<Rightarrow> int \<Rightarrow> block list \<Rightarrow> int \<Rightarrow> nat \<Rightarrow> (nat \<times> int) option
                 \<Rightarrow> (nat \<times> int) option" where
  "near_fit tot hint [] n i best = best"
| "near_fit tot hint ((pos, sz) # bs) n i best =
     near_fit tot hint bs n (Suc i)
       (if sz \<ge> n
        then (let dist = min \<bar>pos - hint\<bar> (tot - \<bar>pos - hint\<bar>)
              in if (case best of None \<Rightarrow> True | Some (bi, bd) \<Rightarrow> dist < bd)
                 then Some (i, dist) else best)
        else best)"

text \<open>
  The index \<open>idx\<close> that \<open>allocate\<close> settles on. An unknown mode, or a near mode without
  a hint, ends in \<open>return self.allocate(size, mode=1)\<close>, which runs the mode-1 loop.
\<close>

definition choose_block :: "soup \<Rightarrow> int \<Rightarrow> int \<Rightarrow> int \<Rightarrow> int \<Rightarrow> rng \<Rightarrow> nat option \<times> rng" where
  "choose_block s n mode hint_addr tolerance g =
     (if mode = 0 then (first_fit (free_blocks s) n 0, g)
      else if mode = 1 then (map_option fst (better_fit (free_blocks s) n 0 None), g)
      else if mode = 2 then
        (let ad = adequate (free_blocks s) n 0
         in if ad \<noteq> [] then (let (i, g') = choice ad g in (Some i, g')) else (None, g))
      else if mode \<in> {3, 4, 5, 6} \<and> hint_addr \<ge> 0 then
        (case near_fit (size_soup s) hint_addr (free_blocks s) n 0 None of
           None \<Rightarrow> (None, g)
         | Some (best_idx, best_dist) \<Rightarrow>
             if tolerance \<ge> 0 \<and> best_dist > tolerance then (None, g)
             else (Some best_idx, g))
      else (map_option fst (better_fit (free_blocks s) n 0 None), g))"

definition allocate :: "soup \<Rightarrow> int \<Rightarrow> int \<Rightarrow> int \<Rightarrow> int \<Rightarrow> rng
                        \<Rightarrow> (int \<times> int) option \<times> soup \<times> rng" where
  "allocate s n mode hint_addr tolerance g =
     (if free_blocks s = [] then (None, s, g)
      else
        (case choose_block s n mode hint_addr tolerance g of
           (None, g') \<Rightarrow> (None, s, g')
         | (Some idx, g') \<Rightarrow>
             (let (pos, block_size) = free_blocks s ! idx
              in if block_size = n
                 then (Some (pos, n), s\<lparr>free_blocks := del_at idx (free_blocks s)\<rparr>, g')
                 else (Some (pos, n),
                       s\<lparr>free_blocks := (free_blocks s)[idx := (pos + n, block_size - n)]\<rparr>,
                       g'))))"

text \<open>\<open>list.insert(i, x)\<close> for \<open>0 \<le> i\<close>.\<close>

definition insert_at :: "nat \<Rightarrow> 'a \<Rightarrow> 'a list \<Rightarrow> 'a list" where
  "insert_at i x xs = take i xs @ x # drop i xs"

text \<open>
  \<open>allocate_at\<close> walks the free list for a block covering the request; \<open>pre\<close> holds the
  blocks already passed.
\<close>

fun allocate_at_loop :: "block list \<Rightarrow> block list \<Rightarrow> int \<Rightarrow> int \<Rightarrow> block list option" where
  "allocate_at_loop pre [] addr n = None"
| "allocate_at_loop pre ((pos, block_size) # bs) addr n =
     (if pos \<le> addr \<and> pos + block_size \<ge> addr + n
      then Some (pre
                 @ (if pos < addr then [(pos, addr - pos)] else [])
                 @ (if (pos + block_size) - (addr + n) > 0
                    then [(addr + n, (pos + block_size) - (addr + n))] else [])
                 @ bs)
      else allocate_at_loop (pre @ [(pos, block_size)]) bs addr n)"

definition allocate_at :: "soup \<Rightarrow> int \<Rightarrow> int \<Rightarrow> bool \<times> soup" where
  "allocate_at s addr0 n =
     (case allocate_at_loop [] (free_blocks s) (addr0 mod size_soup s) n of
        None \<Rightarrow> (False, s)
      | Some fb \<Rightarrow> (True, s\<lparr>free_blocks := fb\<rparr>))"

text \<open>\<open>bisect.bisect_left\<close>: the binary search of the standard library.\<close>

function bisect_loop :: "int list \<Rightarrow> int \<Rightarrow> nat \<Rightarrow> nat \<Rightarrow> nat" where
  "bisect_loop a x lo hi =
     (if lo < hi
      then (let mid = (lo + hi) div 2
            in if a ! mid < x then bisect_loop a x (mid + 1) hi
               else bisect_loop a x lo mid)
      else lo)"
  by pat_completeness auto
termination
  by (relation "measure (\<lambda>(a, x, lo, hi). hi - lo)") auto

declare bisect_loop.simps [simp del]

definition bisect_left :: "int list \<Rightarrow> int \<Rightarrow> nat" where
  "bisect_left a x = bisect_loop a x 0 (length a)"

text \<open>
  The two merge steps of \<open>deallocate\<close>. Each reads two neighbouring blocks, and when
  the first ends where the second starts, grows the first in place and pops the second.
\<close>

definition merge_next :: "nat \<Rightarrow> block list \<Rightarrow> block list" where
  "merge_next i fb =
     (if i + 1 < length fb
      then (let curr = fb ! i; nxt = fb ! (i + 1)
            in if fst curr + snd curr = fst nxt
               then del_at (i + 1) (fb[i := (fst curr, snd curr + snd nxt)])
               else fb)
      else fb)"

definition merge_prev :: "nat \<Rightarrow> block list \<Rightarrow> block list" where
  "merge_prev i fb =
     (if i > 0
      then (let prev = fb ! (i - 1); curr = fb ! i
            in if fst prev + snd prev = fst curr
               then del_at i (fb[i - 1 := (fst prev, snd prev + snd curr)])
               else fb)
      else fb)"

definition deallocate :: "soup \<Rightarrow> int \<Rightarrow> int \<Rightarrow> soup" where
  "deallocate s addr0 n =
     (let addr = addr0 mod size_soup s;
          positions = map fst (free_blocks s);
          insert_idx = bisect_left positions addr;
          fb1 = insert_at insert_idx (addr, n) (free_blocks s);
          fb2 = merge_next insert_idx fb1;
          fb3 = merge_prev insert_idx fb2
      in s\<lparr>free_blocks := fb3\<rparr>)"

definition is_free :: "soup \<Rightarrow> int \<Rightarrow> bool" where
  "is_free s addr0 =
     (\<exists>(pos, sz) \<in> set (free_blocks s).
        pos \<le> addr0 mod size_soup s \<and> addr0 mod size_soup s < pos + sz)"

definition total_free :: "soup \<Rightarrow> int" where
  "total_free s = sum_list (map snd (free_blocks s))"

text \<open>
  A well-formed free list: blocks lie inside the soup and are not empty, and each block
  ends strictly before every later one starts (so the list is sorted by position, the
  blocks are pairwise disjoint and no two of them are contiguous).
\<close>

definition well_formed_free :: "soup \<Rightarrow> bool" where
  "well_formed_free s =
     (sorted_wrt (\<lambda>b c. fst b + snd b < fst c) (free_blocks s) \<and>
      (\<forall>b \<in> set (free_blocks s). 0 \<le> fst b \<and> 0 < snd b \<and> fst b + snd b \<le> size_soup s))"

text \<open>The free list of a 1000-byte soup with cells at \<open>[100, 180)\<close> and \<open>[200, 900)\<close>.\<close>

definition soup_three_gaps :: soup where
  "soup_three_gaps = \<lparr>size_soup = 1000, data = replicate 1000 0,
      free_blocks = [(0, 100), (180, 20), (900, 100)], owners = []\<rparr>"

section \<open>Configuration (config.py)\<close>

text \<open>
  Three of the fields read below (\<open>mov_prop_thr_div\<close>, \<open>reap_rnd_prop\<close>, \<open>dist_prop\<close>)
  are Python floats, that is IEEE-754 binary64 numbers, and the code multiplies them by an
  integer and truncates: \<open>int(n * x)\<close>. A finite double is an integer significand times a
  power of two; the record below holds the two integers, and \<open>dval\<close> is the number they
  stand for. The significand of a stored double has at most 53 bits, and the exponent
  of its last bit is at least \<open>-1074\<close>.
\<close>

record double =
  mant :: int
  expo :: int


text \<open>The number of binary digits of a natural number (\<open>int.bit_length\<close>).\<close>

fun bit_length :: "nat \<Rightarrow> nat" where
  "bit_length n = (if n = 0 then 0 else Suc (bit_length (n div 2)))"

declare bit_length.simps [simp del]

text \<open>
  The integer nearest to \<open>m / 2 ^ k\<close>, a tie going to the even neighbour: the rounding
  mode of every arithmetic operation on Python floats.
\<close>

definition round_half_even :: "int \<Rightarrow> nat \<Rightarrow> int" where
  "round_half_even m k =
     (let q = m div 2 ^ k; r = m mod 2 ^ k
      in if 2 * r < 2 ^ k then q
         else if 2 * r > 2 ^ k then q + 1
         else if even q then q else q + 1)"

text \<open>
  The double nearest to \<open>m * 2 ^ e\<close>: when the significand has more than 53 bits, or its
  last bit lies below \<open>2 ^ -1074\<close>, the surplus low bits are rounded away. The upper end
  of the exponent range is not modelled: a product beyond \<open>1.8e308\<close>, which Python turns
  into \<open>inf\<close>, is kept as a number here.
\<close>

definition round_double :: "int \<Rightarrow> int \<Rightarrow> double" where
  "round_double m e =
     (let k = max (int (bit_length (nat \<bar>m\<bar>)) - 53) (- 1074 - e)
      in if k \<le> 0 then \<lparr>mant = m, expo = e\<rparr>
         else \<lparr>mant = round_half_even m (nat k), expo = e + k\<rparr>)"

text \<open>
  \<open>n * x\<close> for an \<open>int\<close> and a \<open>float\<close> first converts the integer to the nearest double
  and then multiplies, rounding the exact product once.
\<close>

definition double_of_int :: "int \<Rightarrow> double" where
  "double_of_int n = round_double n 0"

definition double_mul :: "double \<Rightarrow> double \<Rightarrow> double" where
  "double_mul x y = round_double (mant x * mant y) (expo x + expo y)"

text \<open>
  \<open>double_floor\<close> is the floor of the value; Python's \<open>int(x)\<close> on a float truncates toward
  zero, which is the floor for \<open>x \<ge> 0\<close> and the negated floor of \<open>-x\<close> otherwise.
\<close>

definition double_floor :: "double \<Rightarrow> int" where
  "double_floor x = (if 0 \<le> expo x then mant x * 2 ^ nat (expo x)
                     else mant x div 2 ^ nat (- expo x))"

definition int_of_double :: "double \<Rightarrow> int" where
  "int_of_double x = (if 0 \<le> mant x then double_floor x
                      else - double_floor (x\<lparr>mant := - mant x\<rparr>))"

text \<open>The fields of \<open>Config\<close> that the modelled operations read.\<close>

record config =
  soup_size :: int
  min_cell_size :: int
  mov_prop_thr_div :: double
  search_limit :: int
  mal_mode :: int
  mal_reap_tol :: int
  mal_tol :: int
  reap_rnd_prop :: double
  lazy_tol :: int
  div_same_siz :: int
  dist_prop :: double

section \<open>CPU and cell (cpu.py, cell.py)\<close>

record cpu =
  ax :: int
  bx :: int
  cx :: int
  dx :: int
  ip :: int
  sp :: int
  stack :: "int list"
  flag_e :: bool
  flag_s :: bool
  flag_z :: bool
  ip_modified :: bool

definition CPU_init :: cpu where
  "CPU_init = \<lparr>ax = 0, bx = 0, cx = 0, dx = 0, ip = 0, sp = 0, stack = replicate 10 0,
               flag_e = False, flag_s = False, flag_z = False, ip_modified = False\<rparr>"

record mem_region =
  pos_r :: int
  size_r :: int

record demographics =
  genotype :: string
  parent_genotype :: string
  fecundity :: int
  inst_executed :: int
  rep_inst :: int
  mutations :: int
  mov_daught :: int
  mov_off_min :: int
  mov_off_max :: int
  birth_time :: int

definition Demographics_init :: demographics where
  "Demographics_init = \<lparr>genotype = [], parent_genotype = [], fecundity = 0,
     inst_executed = 0, rep_inst = 0, mutations = 0, mov_daught = 0, mov_off_min = 0,
     mov_off_max = 0, birth_time = 0\<rparr>"

record cell =
  cpu :: cpu
  mm :: mem_region
  md :: "mem_region option"
  d :: demographics
  alive :: bool
  ib :: int

definition Cell_init :: "int \<Rightarrow> int \<Rightarrow> cell" where
  "Cell_init p n = \<lparr>cpu = CPU_init, mm = \<lparr>pos_r = p, size_r = n\<rparr>, md = None,
                    d = Demographics_init, alive = True, ib = 0\<rparr>"

definition set_flag_e :: "bool \<Rightarrow> cell \<Rightarrow> cell" where
  "set_flag_e b x = x\<lparr>cpu := (cpu x)\<lparr>flag_e := b\<rparr>\<rparr>"

section \<open>Owner index (soup.py)\<close>

definition add_owner :: "soup \<Rightarrow> cell_id \<Rightarrow> mem_region \<Rightarrow> soup" where
  "add_owner s c m =
     s\<lparr>owners := insert_at (bisect_left (map fst (owners s)) (pos_r m))
                     (pos_r m, size_r m, c) (owners s)\<rparr>"

fun remove_owner_loop :: "(int \<times> int \<times> cell_id) list \<Rightarrow> cell_id \<Rightarrow> (int \<times> int \<times> cell_id) list" where
  "remove_owner_loop [] c = []"
| "remove_owner_loop ((p, n, c') # os) c =
     (if c' = c then os else (p, n, c') # remove_owner_loop os c)"

definition remove_owner :: "soup \<Rightarrow> cell_id \<Rightarrow> soup" where
  "remove_owner s c = s\<lparr>owners := remove_owner_loop (owners s) c\<rparr>"

text \<open>\<open>randomize_block\<close>: one \<open>random.randint(0, 31)\<close> per byte, in address order.\<close>

fun randomize_loop :: "nat \<Rightarrow> int \<Rightarrow> int \<Rightarrow> soup \<Rightarrow> rng \<Rightarrow> soup \<times> rng" where
  "randomize_loop 0 i addr s g = (s, g)"
| "randomize_loop (Suc k) i addr s g =
     (let (v, g') = randint 0 31 g
      in randomize_loop k (i + 1) addr
           (s\<lparr>data := (data s)[nat ((addr + i) mod size_soup s) := v]\<rparr>) g')"

definition randomize_block :: "soup \<Rightarrow> int \<Rightarrow> int \<Rightarrow> rng \<Rightarrow> soup \<times> rng" where
  "randomize_block s addr n g = randomize_loop (nat n) 0 addr s g"

text \<open>
  \<open>write_block\<close>: the bytes land at consecutive addresses, split at the seam when the
  block passes the end of the array. numpy refuses (\<open>ValueError\<close>) a slice assignment
  whose two sides differ in length, which happens when the part after the seam is
  longer than the array.
\<close>

definition write_slice :: "int list \<Rightarrow> nat \<Rightarrow> int list \<Rightarrow> int list" where
  "write_slice xs i bs = take i xs @ bs @ drop (i + length bs) xs"

definition write_block :: "soup \<Rightarrow> int \<Rightarrow> int list \<Rightarrow> py_error + soup" where
  "write_block s addr0 bs =
     (let addr = addr0 mod size_soup s
      in if addr + int (length bs) \<le> size_soup s
         then Inr (s\<lparr>data := write_slice (data s) (nat addr) bs\<rparr>)
         else (let split = nat (size_soup s - addr)
               in if length bs - split > length (data s) then Inl ValueError
                  else Inr (s\<lparr>data := write_slice (write_slice (data s) (nat addr) (take split bs))
                                          0 (drop split bs)\<rparr>)))"

section \<open>Genebank (genebank.py)\<close>

text \<open>
  A \<open>Genotype\<close> object is shared between its size class (keyed by hash) and the
  name index of the genebank, and \<open>register\<close> and \<open>unregister\<close> mutate it through
  either. The model keeps the objects in a list and both dictionaries hold positions
  in it.
\<close>

type_synonym gt_ref = nat

record genotype_obj =
  name :: string
  genome :: "int list"
  population :: int
  origin_time :: int
  max_pop :: int
  parent :: string

record size_class =
  genotypes_sc :: "int \<rightharpoonup> gt_ref"
  next_label :: int

record genebank =
  size_classes :: "int \<rightharpoonup> size_class"
  genotypes :: "string \<rightharpoonup> gt_ref"
  objs :: "genotype_obj list"

definition GeneBank_init :: genebank where
  "GeneBank_init = \<lparr>size_classes = Map.empty, genotypes = Map.empty, objs = []\<rparr>"

definition letter :: "int \<Rightarrow> char" where
  "letter k = ''abcdefghijklmnopqrstuvwxyz'' ! nat k"

definition int_to_label :: "int \<Rightarrow> string" where
  "int_to_label n =
     [letter ((n div 26 div 26) mod 26), letter ((n div 26) mod 26), letter (n mod 26)]"

definition digit :: "nat \<Rightarrow> char" where
  "digit k = ''0123456789'' ! k"

fun decimal :: "nat \<Rightarrow> string" where
  "decimal n = (if n < 10 then [digit n] else decimal (n div 10) @ [digit (n mod 10)])"

declare decimal.simps [simp del]

text \<open>The format \<open>{size:04d}\<close>: zero-padded to four characters, the sign included.\<close>

definition fmt04 :: "int \<Rightarrow> string" where
  "fmt04 n =
     (if n < 0
      then CHR ''-'' # replicate (3 - length (decimal (nat (- n)))) CHR ''0'' @ decimal (nat (- n))
      else replicate (4 - length (decimal (nat n))) CHR ''0'' @ decimal (nat n))"

definition next_name :: "size_class \<Rightarrow> int \<Rightarrow> string \<times> size_class" where
  "next_name sc n = (fmt04 n @ int_to_label (next_label sc), sc\<lparr>next_label := next_label sc + 1\<rparr>)"

text \<open>
  \<open>_genome_hash\<close>: \<open>h = (h + b * (i + 1)) & 0xFFFFFFFF\<close> over the bytes, then
  \<open>h ^= len(data)\<close>. Masking with \<open>0xFFFFFFFF\<close> keeps the low 32 bits.
\<close>

fun hash_loop :: "int list \<Rightarrow> int \<Rightarrow> int \<Rightarrow> int" where
  "hash_loop [] i h = h"
| "hash_loop (b # bs) i h = hash_loop bs (i + 1) (take_bit 32 (h + b * (i + 1)))"

definition genome_hash :: "int list \<Rightarrow> int" where
  "genome_hash bs = xor (hash_loop bs 0 0) (int (length bs))"

text \<open>
  \<open>register\<close> returns the genotype (its position in \<open>objs\<close>), the genebank and the
  cell, whose \<open>d.genotype\<close> it sets.
\<close>

definition register :: "genebank \<Rightarrow> cell \<Rightarrow> soup \<Rightarrow> gt_ref \<times> genebank \<times> cell" where
  "register gb c s =
     (let gen = read_block s (pos_r (mm c)) (size_r (mm c));
          n = size_r (mm c);
          ghash = genome_hash gen;
          sc = (case size_classes gb n of None \<Rightarrow> \<lparr>genotypes_sc = Map.empty, next_label = 0\<rparr>
                | Some sc0 \<Rightarrow> sc0);
          (gt, sc1, gb1) =
            (case genotypes_sc sc ghash of
               Some r \<Rightarrow> (r, sc, gb)
             | None \<Rightarrow>
                 (let (nm, sc') = next_name sc n;
                      r = length (objs gb);
                      obj = \<lparr>name = nm, genome = gen, population = 0, origin_time = 0,
                             max_pop = 0, parent = parent_genotype (d c)\<rparr>
                  in (r, sc'\<lparr>genotypes_sc := (genotypes_sc sc')(ghash \<mapsto> r)\<rparr>,
                      gb\<lparr>genotypes := (genotypes gb)(nm \<mapsto> r), objs := objs gb @ [obj]\<rparr>)));
          o1 = objs gb1 ! gt;
          o2 = o1\<lparr>population := population o1 + 1\<rparr>;
          o3 = o2\<lparr>max_pop := max (max_pop o2) (population o2)\<rparr>
      in (gt,
          gb1\<lparr>size_classes := (size_classes gb1)(n \<mapsto> sc1), objs := (objs gb1)[gt := o3]\<rparr>,
          c\<lparr>d := (d c)\<lparr>genotype := name o3\<rparr>\<rparr>))"

definition unregister :: "genebank \<Rightarrow> cell \<Rightarrow> genebank" where
  "unregister gb c =
     (case genotypes gb (genotype (d c)) of
        None \<Rightarrow> gb
      | Some r \<Rightarrow>
          gb\<lparr>objs := (objs gb)[r := (objs gb ! r)\<lparr>population := max 0 (population (objs gb ! r) - 1)\<rparr>]\<rparr>)"

section \<open>Simulation state (simulation.py, events.py)\<close>

text \<open>
  An emitted event, with its keyword payload. The event bus calls the subscribers in
  order; the model records every \<open>emit\<close> that passes the \<open>_enabled\<close> test.
\<close>

datatype event =
    CELL_BORN cell_id cell_id
  | CELL_DIED cell_id string
  | NEW_GENOTYPE gt_ref
  | MUTATION int string
  | MILESTONE int

text \<open>
  The simulation binds the components. \<open>cells\<close> is the heap of \<open>Cell\<close> objects, indexed
  by identity, and \<open>next_id\<close> the class counter \<open>Cell._next_id\<close>. The reaper holds the
  same \<open>Config\<close> object as the simulation, so only its queue is kept. The reaper and
  the genebank are always present (\<open>Simulation.__init__\<close> creates them and nothing
  under \<open>pytierra\<close> clears them); the mutation engine may be \<open>None\<close> and is a parameter
  of \<open>divide\<close> below.
\<close>

record sim =
  config :: config
  soup :: soup
  scheduler :: scheduler
  reaper_queue :: "cell_id list"
  genebank :: genebank
  cells :: "cell_id \<Rightarrow> cell"
  next_id :: nat
  events_enabled :: bool
  events :: "event list"
  sim_inst_executed :: int
  last_repro_inst :: int
  rng :: rng

definition Simulation_init :: "config \<Rightarrow> rng \<Rightarrow> sim" where
  "Simulation_init cfg g =
     \<lparr>config = cfg, soup = Soup_init (soup_size cfg), scheduler = Scheduler_init,
      reaper_queue = [], genebank = GeneBank_init, cells = (\<lambda>i. Cell_init 0 0),
      next_id = 0, events_enabled = True, events = [], sim_inst_executed = 0,
      last_repro_inst = 0, rng = g\<rparr>"

definition emit :: "event \<Rightarrow> sim \<Rightarrow> sim" where
  "emit e S = (if events_enabled S then S\<lparr>events := events S @ [e]\<rparr> else S)"

definition upd_cell :: "cell_id \<Rightarrow> (cell \<Rightarrow> cell) \<Rightarrow> sim \<Rightarrow> sim" where
  "upd_cell c f S = S\<lparr>cells := (cells S)(c := f (cells S c))\<rparr>"

section \<open>Reaper (reaper.py)\<close>

definition reaper_add :: "cell_id \<Rightarrow> sim \<Rightarrow> sim" where
  "reaper_add c S = S\<lparr>reaper_queue := reaper_queue S @ [c]\<rparr>"

definition reaper_remove :: "cell_id \<Rightarrow> sim \<Rightarrow> sim" where
  "reaper_remove c S = S\<lparr>reaper_queue := remove1 c (reaper_queue S)\<rparr>"

definition reap_cell :: "cell_id \<Rightarrow> sim \<Rightarrow> sim" where
  "reap_cell c S =
     (let S1 = upd_cell c (\<lambda>x. x\<lparr>alive := False\<rparr>) S;
          S2 = emit (CELL_DIED c ''reaper'') S1;
          m = mm (cells S2 c);
          S3 = S2\<lparr>soup := deallocate (soup S2) (pos_r m) (size_r m)\<rparr>;
          (sp', g') = randomize_block (soup S3) (pos_r m) (size_r m) (rng S3);
          S4 = S3\<lparr>soup := sp', rng := g'\<rparr>;
          S5 = S4\<lparr>soup := remove_owner (soup S4) c\<rparr>;
          S6 = (case md (cells S5 c) of
                  None \<Rightarrow> S5
                | Some r \<Rightarrow>
                    upd_cell c (\<lambda>x. x\<lparr>md := None\<rparr>)
                      (S5\<lparr>soup := deallocate (soup S5) (pos_r r) (size_r r)\<rparr>));
          S7 = S6\<lparr>genebank := unregister (genebank S6) (cells S6 c)\<rparr>;
          S8 = reaper_remove c S7
      in S8\<lparr>scheduler := sched_remove c (scheduler S8)\<rparr>)"

definition avg_size_sched :: "sim \<Rightarrow> int" where
  "avg_size_sched S =
     (if num_cells (scheduler S) > 0
      then sum_list (map (\<lambda>c. size_r (mm (cells S c))) (sched_queue (scheduler S)))
             div num_cells (scheduler S)
      else 80)"

fun reap_near_loop :: "cell_id list \<Rightarrow> sim \<Rightarrow> int \<Rightarrow> cell_id option \<Rightarrow> int
                       \<Rightarrow> cell_id option \<times> sim" where
  "reap_near_loop [] S addr cur max_dist = (None, S)"
| "reap_near_loop (c # cs) S addr cur max_dist =
     (if Some c = cur then reap_near_loop cs S addr cur max_dist
      else (let dist = min \<bar>pos_r (mm (cells S c)) - addr\<bar>
                           (soup_size (config S) - \<bar>pos_r (mm (cells S c)) - addr\<bar>)
            in if dist \<le> max_dist then (Some c, reap_cell c S)
               else reap_near_loop cs S addr cur max_dist))"

definition reap_near_address :: "sim \<Rightarrow> int \<Rightarrow> cell_id option \<Rightarrow> cell_id option \<times> sim" where
  "reap_near_address S addr cur =
     reap_near_loop (reaper_queue S) S addr cur (mal_tol (config S) * avg_size_sched S)"

text \<open>
  The global mode of \<open>reap\<close>, after the near-address attempt: a draw in the front
  window of the queue, one step aside when it hits the executing cell.
\<close>

definition reap_global :: "sim \<Rightarrow> cell_id option \<Rightarrow> (py_error + cell_id option) \<times> sim" where
  "reap_global S cur =
     (let n = int (length (reaper_queue S));
          reap_range = max 1 (int_of_double (double_mul (double_of_int n) (reap_rnd_prop (config S))));
          (idx, g') = (if reap_range < 2 then (0, rng S) else randint 0 (reap_range - 1) (rng S));
          S1 = S\<lparr>rng := g'\<rparr>
      in case py_index (reaper_queue S1) idx of
           Inl e \<Rightarrow> (Inl e, S1)
         | Inr victim \<Rightarrow>
             if Some victim = cur \<and> n > 1
             then (case py_index (reaper_queue S1) ((idx + 1) mod min reap_range n) of
                     Inl e \<Rightarrow> (Inl e, S1)
                   | Inr victim2 \<Rightarrow>
                       if Some victim2 = cur then (Inr None, S1)
                       else (Inr (Some victim2), reap_cell victim2 S1))
             else (Inr (Some victim), reap_cell victim S1))"

definition reap :: "sim \<Rightarrow> int \<Rightarrow> (py_error + cell_id option) \<times> sim" where
  "reap S suggested_addr =
     (if reaper_queue S = [] then (Inr None, S)
      else
        (case sched_current (scheduler S) of
           (Inl e, sch) \<Rightarrow> (Inl e, S\<lparr>scheduler := sch\<rparr>)
         | (Inr cur, sch) \<Rightarrow>
             (let S1 = S\<lparr>scheduler := sch\<rparr>
              in if mal_reap_tol (config S1) \<noteq> 0 \<and> suggested_addr \<ge> 0
                 then (case reap_near_address S1 suggested_addr cur of
                         (Some v, S2) \<Rightarrow> (Inr (Some v), S2)
                       | (None, S2) \<Rightarrow> reap_global S2 cur)
                 else reap_global S1 cur)))"

definition check_lazy :: "cell_id \<Rightarrow> sim \<Rightarrow> bool \<times> sim" where
  "check_lazy c S =
     (if lazy_tol (config S) \<le> 0 then (False, S)
      else if fecundity (d (cells S c)) > 0
           then (let threshold = size_r (mm (cells S c)) * lazy_tol (config S)
                 in if rep_inst (d (cells S c)) > threshold then (True, reap_cell c S)
                    else (False, S))
      else (False, S))"

text \<open>
  The loop of \<open>disturbance\<close>: \<open>k\<close> iterations are left, \<open>cur\<close> is the cell that was
  executing when the call began, \<open>killed\<close> counts the victims.
\<close>

fun disturbance_loop :: "nat \<Rightarrow> cell_id option \<Rightarrow> int \<Rightarrow> sim \<Rightarrow> int \<times> sim" where
  "disturbance_loop 0 cur killed S = (killed, S)"
| "disturbance_loop (Suc k) cur killed S =
     (if length (reaper_queue S) \<le> 1 then (killed, S)
      else (let (idx, g') = randint 0 (int (length (reaper_queue S)) - 1) (rng S);
                S1 = S\<lparr>rng := g'\<rparr>;
                victim = reaper_queue S1 ! nat idx
            in if Some victim = cur then disturbance_loop k cur killed S1
               else disturbance_loop k cur (killed + 1) (reap_cell victim S1)))"

definition num_to_kill :: "sim \<Rightarrow> int" where
  "num_to_kill S =
     max 1 (int_of_double (double_mul (double_of_int (int (length (reaper_queue S))))
                                      (dist_prop (config S))))"

definition disturbance :: "sim \<Rightarrow> py_error + (int \<times> sim)" where
  "disturbance S =
     (if reaper_queue S = [] then Inr (0, S)
      else
        (case sched_current (scheduler S) of
           (Inl e, sch) \<Rightarrow> Inl e
         | (Inr cur, sch) \<Rightarrow>
             Inr (disturbance_loop (nat (num_to_kill S)) cur 0 (S\<lparr>scheduler := sch\<rparr>))))"





section \<open>Template search and the allocation and division opcodes (instructions.py)\<close>

definition avg_cell_size :: "sim \<Rightarrow> int" where
  "avg_cell_size S =
     (if sched_queue (scheduler S) = [] then 80
      else sum_list (map (\<lambda>c. size_r (mm (cells S c))) (sched_queue (scheduler S)))
             div int (length (sched_queue (scheduler S))))"

text \<open>
  The template loop of \<open>_find_template\<close>: it appends while the byte read is \<open>nop0\<close> or
  \<open>nop1\<close> and breaks once the template holds \<open>soup_size\<close> entries, so it runs at most
  \<open>soup_size\<close> times; \<open>k\<close> counts the iterations left.
\<close>

fun read_template :: "soup \<Rightarrow> int \<Rightarrow> nat \<Rightarrow> int \<Rightarrow> int list" where
  "read_template s n 0 p = []"
| "read_template s n (Suc k) p =
     (if read s p = 0 \<or> read s p = 1
      then read s p # read_template s n k ((p + 1) mod n)
      else [])"

text \<open>\<open>_match_at\<close>: compare byte by byte, stop at the first difference.\<close>

fun match_loop :: "sim \<Rightarrow> int list \<Rightarrow> int \<Rightarrow> int \<Rightarrow> bool" where
  "match_loop S [] start j = True"
| "match_loop S (b # bs) start j =
     (if read (soup S) ((start + j) mod soup_size (config S)) \<noteq> b then False
      else match_loop S bs start (j + 1))"

definition match_at :: "sim \<Rightarrow> int list \<Rightarrow> int \<Rightarrow> bool" where
  "match_at S complement start = match_loop S complement start 0"

text \<open>
  Each search loop runs \<open>dist\<close> over \<open>range(1, max_dist + 1)\<close>, computes the address
  \<open>check\<close> to examine and returns at the first one where \<open>_match_at\<close> holds. The
  addresses examined, in loop order, are a list; the outward loop examines the forward
  address and then the backward address of each distance.
\<close>

definition forward_checks :: "int \<Rightarrow> int \<Rightarrow> int \<Rightarrow> int list" where
  "forward_checks n search_start maxd = map (\<lambda>dst. (search_start + dst) mod n) [1..maxd]"

definition backward_checks :: "int \<Rightarrow> int \<Rightarrow> int \<Rightarrow> int list" where
  "backward_checks n ipos maxd = map (\<lambda>dst. (ipos - dst) mod n) [1..maxd]"

definition outward_checks :: "int \<Rightarrow> int \<Rightarrow> int \<Rightarrow> int \<Rightarrow> int list" where
  "outward_checks n search_start ipos maxd =
     concat (map (\<lambda>dst. [(search_start + dst) mod n, (ipos - dst) mod n]) [1..maxd])"

fun first_match :: "sim \<Rightarrow> int list \<Rightarrow> int list \<Rightarrow> int option" where
  "first_match S complement [] = None"
| "first_match S complement (check # cs) =
     (if match_at S complement check
      then Some ((check + int (length complement)) mod soup_size (config S))
      else first_match S complement cs)"

definition template_at :: "sim \<Rightarrow> int \<Rightarrow> int list" where
  "template_at S ipos =
     read_template (soup S) (soup_size (config S)) (nat (soup_size (config S)))
       ((ipos + 1) mod soup_size (config S))"

definition max_dist :: "sim \<Rightarrow> int" where
  "max_dist S =
     (if avg_cell_size S > 0 then search_limit (config S) * avg_cell_size S
      else soup_size (config S))"

definition find_template :: "sim \<Rightarrow> int \<Rightarrow> char \<Rightarrow> int \<times> int" where
  "find_template S ipos direction =
     (let template = template_at S ipos
      in if template = [] then (- 1, 0)
         else
           (let tlen = int (length template);
                complement = map (\<lambda>bit. 1 - bit) template;
                search_start = (ipos + 1 + tlen) mod soup_size (config S);
                found =
                  (if direction = CHR ''f''
                   then first_match S complement
                          (forward_checks (soup_size (config S)) search_start (max_dist S))
                   else if direction = CHR ''b''
                   then first_match S complement
                          (backward_checks (soup_size (config S)) ipos (max_dist S))
                   else if direction = CHR ''o''
                   then first_match S complement
                          (outward_checks (soup_size (config S)) search_start ipos (max_dist S))
                   else None)
            in case found of Some a \<Rightarrow> (a, tlen) | None \<Rightarrow> (- 1, tlen)))"

text \<open>
  \<open>_skip_template\<close> has no bound: it runs until it reads a byte that is not a nop, and
  forever when there is none. The positions repeat after \<open>soup_size\<close> steps, so the
  loop ends within \<open>soup_size\<close> steps or never; \<open>None\<close> is the run that never ends.
\<close>

fun skip_scan :: "soup \<Rightarrow> int \<Rightarrow> nat \<Rightarrow> int \<Rightarrow> int option" where
  "skip_scan s n 0 p = None"
| "skip_scan s n (Suc k) p =
     (if read s p = 0 \<or> read s p = 1 then skip_scan s n k ((p + 1) mod n) else Some p)"

definition skip_template :: "sim \<Rightarrow> cell_id \<Rightarrow> sim option" where
  "skip_template S c =
     (let n = soup_size (config S)
      in case skip_scan (soup S) n (nat n) ((ip (cpu (cells S c)) + 1) mod n) of
           None \<Rightarrow> None
         | Some p \<Rightarrow> Some (upd_cell c (\<lambda>x. x\<lparr>cpu := (cpu x)\<lparr>ip := (p - 1) mod n\<rparr>\<rparr>) S))"

definition adrf :: "sim \<Rightarrow> cell_id \<Rightarrow> sim option" where
  "adrf S c =
     (let (addr, tlen) = find_template S (ip (cpu (cells S c))) CHR ''f'';
          S1 = (if addr \<ge> 0
                then upd_cell c (\<lambda>x. x\<lparr>cpu := (cpu x)\<lparr>ax := addr mod soup_size (config S),
                                                      cx := tlen, flag_e := False\<rparr>\<rparr>) S
                else upd_cell c (set_flag_e True) S)
      in if tlen > 0 then skip_template S1 c else Some S1)"

text \<open>The tail of \<open>mal\<close> once \<open>allocate\<close> has returned \<open>(addr, actual_size)\<close>.\<close>

definition mal_finish :: "sim \<Rightarrow> cell_id \<Rightarrow> int \<times> int \<Rightarrow> sim" where
  "mal_finish S c res =
     upd_cell c (\<lambda>x. x\<lparr>md := Some \<lparr>pos_r = fst res, size_r = snd res\<rparr>,
                        cpu := (cpu x)\<lparr>ax := fst res, flag_e := False\<rparr>,
                        d := (d x)\<lparr>mov_off_min := snd res, mov_off_max := 0, mov_daught := 0\<rparr>\<rparr>) S"

definition sim_allocate :: "sim \<Rightarrow> int \<Rightarrow> (int \<times> int) option \<times> sim" where
  "sim_allocate S n =
     (case allocate (soup S) n (mal_mode (config S)) (- 1) (- 1) (rng S) of
        (res, sp', g') \<Rightarrow> (res, S\<lparr>soup := sp', rng := g'\<rparr>))"

definition mal :: "sim \<Rightarrow> cell_id \<Rightarrow> py_error + sim" where
  "mal S c =
     (let n = cx (cpu (cells S c))
      in if n < min_cell_size (config S) \<or> n > size_r (mm (cells S c)) * 2
         then Inr (upd_cell c (set_flag_e True) S)
         else
           (let S1 = (case md (cells S c) of
                        None \<Rightarrow> S
                      | Some r \<Rightarrow>
                          upd_cell c (\<lambda>x. x\<lparr>md := None\<rparr>)
                            (S\<lparr>soup := deallocate (soup S) (pos_r r) (size_r r)\<rparr>))
            in case sim_allocate S1 n of
                 (Some res, S2) \<Rightarrow> Inr (mal_finish S2 c res)
               | (None, S2) \<Rightarrow>
                   (case reap S2 (- 1) of
                      (Inl e, S3) \<Rightarrow> Inl e
                    | (Inr v, S3) \<Rightarrow>
                        (case sim_allocate S3 n of
                           (Some res, S4) \<Rightarrow> Inr (mal_finish S4 c res)
                         | (None, S4) \<Rightarrow> Inr (upd_cell c (set_flag_e True) S4)))))"

text \<open>
  \<open>divide\<close>. The division-time genetic operators (\<open>Mutations.genetic_ops\<close>, which
  rewrites daughter bytes and counters with draws from the generator) are the parameter
  \<open>gops\<close>: \<open>None\<close> when \<open>sim.mutations\<close> is \<open>None\<close>, otherwise the state change they
  make for the dividing cell.
\<close>

definition divide :: "(cell_id \<Rightarrow> sim \<Rightarrow> sim) option \<Rightarrow> sim \<Rightarrow> cell_id \<Rightarrow> sim" where
  "divide gops S c =
     (case md (cells S c) of
        None \<Rightarrow> upd_cell c (set_flag_e True) S
      | Some r \<Rightarrow>
          if size_r r < min_cell_size (config S) then upd_cell c (set_flag_e True) S
          else if mov_daught (d (cells S c))
                    < int_of_double (double_mul (double_of_int (size_r r))
                                                (mov_prop_thr_div (config S)))
          then upd_cell c (set_flag_e True) S
          else if div_same_siz (config S) \<noteq> 0 \<and> size_r r \<noteq> size_r (mm (cells S c))
          then upd_cell c (set_flag_e True) S
          else
            (let S1 = (case gops of None \<Rightarrow> S | Some f \<Rightarrow> f c S);
                 dgt = next_id S1;
                 new = (Cell_init (pos_r r) (size_r r))
                         \<lparr>cpu := CPU_init\<lparr>ip := pos_r r\<rparr>,
                          d := Demographics_init
                                 \<lparr>parent_genotype := genotype (d (cells S1 c)),
                                  birth_time := sim_inst_executed S1\<rparr>\<rparr>;
                 (gt, gb', new') = register (genebank S1) new (soup S1);
                 S2 = S1\<lparr>genebank := gb', cells := (cells S1)(dgt := new'), next_id := Suc dgt\<rparr>;
                 S3 = (if population (objs gb' ! gt) = 1 then emit (NEW_GENOTYPE gt) S2 else S2);
                 S4 = S3\<lparr>scheduler := sched_add dgt (scheduler S3)\<rparr>;
                 S5 = S4\<lparr>soup := add_owner (soup S4) dgt (mm new')\<rparr>;
                 S6 = reaper_add dgt S5;
                 S7 = emit (CELL_BORN dgt c) S6;
                 S8 = S7\<lparr>last_repro_inst := sim_inst_executed S7\<rparr>
             in upd_cell c
                  (\<lambda>x. x\<lparr>md := None,
                          d := (d x)\<lparr>fecundity := fecundity (d x) + 1, mov_daught := 0,
                                     mov_off_min := 0, mov_off_max := 0, rep_inst := 0\<rparr>,
                          cpu := (cpu x)\<lparr>flag_e := False\<rparr>\<rparr>) S8))"

section \<open>Boot (simulation.py)\<close>

text \<open>
  \<open>boot\<close> with the ancestor's bytes as loaded from its file. The mutation rates and the
  disturbance schedule that \<open>boot\<close> also sets are floats outside this model.
\<close>

definition boot :: "sim \<Rightarrow> int list \<Rightarrow> py_error + sim" where
  "boot S gen =
     (let n = int (length gen);
          p = soup_size (config S) div 2 - n div 2
      in case write_block (soup S) p gen of
           Inl e \<Rightarrow> Inl e
         | Inr sp1 \<Rightarrow>
             (let (ok, sp2) = allocate_at sp1 p n;
                  c = next_id S;
                  new = (Cell_init p n)
                          \<lparr>cpu := CPU_init\<lparr>ip := p\<rparr>,
                           d := Demographics_init\<lparr>parent_genotype := ''0666god'',
                                                  birth_time := 0\<rparr>\<rparr>;
                  S1 = S\<lparr>soup := sp2, cells := (cells S)(c := new), next_id := Suc c\<rparr>;
                  S2 = S1\<lparr>scheduler := sched_add c (scheduler S1)\<rparr>;
                  S3 = S2\<lparr>soup := add_owner (soup S2) c (mm new)\<rparr>;
                  S4 = reaper_add c S3;
                  (gt, gb', new') = register (genebank S4) (cells S4 c) (soup S4)
              in Inr (S4\<lparr>genebank := gb', cells := (cells S4)(c := new')\<rparr>)))"

section \<open>The partition of the soup\<close>

text \<open>
  The intervals that the partition invariant speaks of: the free blocks, and for every
  alive cell its mother region and, when it has one, its daughter region. An address
  \<open>a\<close> of \<open>[0, n)\<close> lies in the interval \<open>[p, p + sz)\<close> taken modulo \<open>n\<close> exactly when
  \<open>(a - p) mod n < sz\<close>. The intervals partition the soup when every address lies in
  exactly one of them.
\<close>

definition covers :: "int \<Rightarrow> int \<times> int \<Rightarrow> int \<Rightarrow> bool" where
  "covers n b a = ((a - fst b) mod n < snd b)"

definition cell_intervals :: "cell \<Rightarrow> (int \<times> int) list" where
  "cell_intervals x =
     (if alive x
      then (pos_r (mm x), size_r (mm x))
             # (case md x of None \<Rightarrow> [] | Some r \<Rightarrow> [(pos_r r, size_r r)])
      else [])"

definition intervals :: "sim \<Rightarrow> (int \<times> int) list" where
  "intervals S =
     free_blocks (soup S) @ concat (map (\<lambda>c. cell_intervals (cells S c)) [0..<next_id S])"

definition cover_count :: "sim \<Rightarrow> int \<Rightarrow> nat" where
  "cover_count S a = length (filter (\<lambda>b. covers (size_soup (soup S)) b a) (intervals S))"

definition partition_ok :: "sim \<Rightarrow> bool" where
  "partition_ok S = list_all (\<lambda>a. cover_count S a = 1) [0..size_soup (soup S) - 1]"

section \<open>Example states\<close>

text \<open>
  The defaults of the \<open>Config\<close> dataclass. The float literals \<open>0.7\<close>, \<open>0.3\<close> and \<open>0.2\<close>
  denote the doubles nearest to them, which are \<open>6305039478318694 / 2 ^ 53\<close>,
  \<open>5404319552844595 / 2 ^ 54\<close> and \<open>7205759403792794 / 2 ^ 55\<close>.
\<close>

definition Config_default :: config where
  "Config_default =
     \<lparr>soup_size = 60000, min_cell_size = 12,
      mov_prop_thr_div = \<lparr>mant = 6305039478318694, expo = - 53\<rparr>, search_limit = 5,
      mal_mode = 1, mal_reap_tol = 1, mal_tol = 20,
      reap_rnd_prop = \<lparr>mant = 5404319552844595, expo = - 54\<rparr>, lazy_tol = 10,
      div_same_siz = 0, dist_prop = \<lparr>mant = 7205759403792794, expo = - 55\<rparr>\<rparr>"

text \<open>
  \<open>make_cell\<close> of the instruction tests: a cell at \<open>pos\<close>, its region taken from the free
  list, added to the scheduler and the owner index (not to the reaper queue).
\<close>

definition make_cell :: "sim \<Rightarrow> int \<Rightarrow> int \<Rightarrow> sim" where
  "make_cell S p n =
     (let c = next_id S;
          new = (Cell_init p n)\<lparr>cpu := CPU_init\<lparr>ip := p\<rparr>\<rparr>;
          S1 = S\<lparr>soup := snd (allocate_at (soup S) p n), cells := (cells S)(c := new),
                 next_id := Suc c\<rparr>;
          S2 = S1\<lparr>scheduler := sched_add c (scheduler S1)\<rparr>
      in S2\<lparr>soup := add_owner (soup S2) c (mm new)\<rparr>)"

text \<open>
  The state of \<open>test_divide_insufficient_copy\<close>: a 10000-byte soup, a cell at
  \<open>[100, 180)\<close> with a daughter at \<open>[500, 580)\<close> into which 10 bytes were copied.
\<close>

definition divide_test_state :: sim where
  "divide_test_state =
     upd_cell 0 (\<lambda>x. x\<lparr>md := Some \<lparr>pos_r = 500, size_r = 80\<rparr>, d := (d x)\<lparr>mov_daught := 10\<rparr>\<rparr>)
       (make_cell (Simulation_init (Config_default\<lparr>soup_size := 10000\<rparr>) (\<lambda>i. 0)) 100 80)"

text \<open>
  A cell at \<open>[100, 180)\<close> of a 10000-byte soup that has divided once, in both queues,
  with the given \<open>lazy_tol\<close> and \<open>rep_inst\<close>.
\<close>

definition lazy_example :: "int \<Rightarrow> int \<Rightarrow> sim" where
  "lazy_example tol n =
     reaper_add 0
       (upd_cell 0 (\<lambda>x. x\<lparr>d := (d x)\<lparr>fecundity := 1, rep_inst := n\<rparr>\<rparr>)
          (make_cell (Simulation_init (Config_default\<lparr>soup_size := 10000, lazy_tol := tol\<rparr>)
                        (\<lambda>i. 0)) 100 80))"

text \<open>
  Ten cells of 12 bytes at the start of a 1000-byte soup, in both queues in birth
  order, cell 0 executing; \<open>dist_prop\<close> is the default 0.2.
\<close>

definition population10 :: "rng \<Rightarrow> sim" where
  "population10 g =
     \<lparr>config = Config_default\<lparr>soup_size := 1000\<rparr>,
      soup = \<lparr>size_soup = 1000, data = replicate 1000 0, free_blocks = [(120, 880)],
              owners = map (\<lambda>i. (12 * int i, 12, i)) [0, 1, 2, 3, 4, 5, 6, 7, 8, 9]\<rparr>,
      scheduler = \<lparr>sched_queue = [0, 1, 2, 3, 4, 5, 6, 7, 8, 9], current_idx = 0\<rparr>,
      reaper_queue = [0, 1, 2, 3, 4, 5, 6, 7, 8, 9], genebank = GeneBank_init,
      cells = (\<lambda>i. Cell_init (12 * int i) 12), next_id = 10,
      events_enabled = True, events = [], sim_inst_executed = 0, last_repro_inst = 0,
      rng = g\<rparr>"

section \<open>Registering a sequence of creatures\<close>

text \<open>
  The key under which \<open>register\<close> files a creature: the size of its mother region and
  the hash of the bytes read from it. \<open>lookup\<close> finds the genotype stored under a key.
\<close>

definition reg_key :: "cell \<Rightarrow> soup \<Rightarrow> int \<times> int" where
  "reg_key c s = (size_r (mm c), genome_hash (read_block s (pos_r (mm c)) (size_r (mm c))))"

definition lookup :: "genebank \<Rightarrow> int \<times> int \<Rightarrow> gt_ref option" where
  "lookup gb k =
     (case size_classes gb (fst k) of None \<Rightarrow> None | Some sc \<Rightarrow> genotypes_sc sc (snd k))"

text \<open>
  \<open>register\<close> called for one creature after the other, each with the soup as it is at
  that moment; the result lists the genotype and the tagged cell of each call.
\<close>

fun register_seq :: "genebank \<Rightarrow> (cell \<times> soup) list \<Rightarrow> (gt_ref \<times> cell) list \<times> genebank" where
  "register_seq gb [] = ([], gb)"
| "register_seq gb ((c, s) # xs) =
     (case register gb c s of
        (gt, gb', c') \<Rightarrow>
          (case register_seq gb' xs of (rs, gb'') \<Rightarrow> ((gt, c') # rs, gb'')))"

text \<open>
  What \<open>register\<close> maintains, from the empty genebank on: every stored reference points
  into \<open>objs\<close>, and two different keys never share a genotype.
\<close>

definition gb_inv :: "genebank \<Rightarrow> bool" where
  "gb_inv gb =
     ((\<forall>k r. lookup gb k = Some r \<longrightarrow> r < length (objs gb)) \<and>
      (\<forall>k k' r. lookup gb k = Some r \<and> lookup gb k' = Some r \<longrightarrow> k = k'))"

text \<open>
  Two 12-byte genomes in a 100-byte soup, at \<open>[0, 12)\<close> and \<open>[12, 24)\<close>, that differ in
  their first two bytes (\<open>not0, nop0\<close> against \<open>nop0, nop1\<close>).
\<close>

definition collision_soup :: soup where
  "collision_soup =
     \<lparr>size_soup = 100,
      data = [2, 0, 5, 5, 5, 5, 5, 5, 5, 5, 5, 5] @ [0, 1, 5, 5, 5, 5, 5, 5, 5, 5, 5, 5]
             @ replicate 76 0,
      free_blocks = [(24, 76)], owners = []\<rparr>"

definition assigned :: "genebank \<Rightarrow> (cell \<times> soup) list \<Rightarrow> nat \<Rightarrow> gt_ref" where
  "assigned gb xs i = fst (fst (register_seq gb xs) ! i)"

definition tagged :: "genebank \<Rightarrow> (cell \<times> soup) list \<Rightarrow> nat \<Rightarrow> string" where
  "tagged gb xs i = genotype (d (snd (fst (register_seq gb xs) ! i)))"

definition collision_pair :: "(cell \<times> soup) list" where
  "collision_pair = [(Cell_init 0 12, collision_soup), (Cell_init 12 12, collision_soup)]"

text \<open>
  The vocabulary of the claim about \<open>register\<close>. \<open>label_count\<close> is the counter
  \<open>next_label\<close> of a size class (0 for a class not yet created). Besides \<open>gb_inv\<close>,
  \<open>register\<close> and \<open>unregister\<close> maintain that every genotype is stored under the hash of
  its own genome (\<open>gb_hashes\<close>) and, as long as no size class has handed out more than
  \<open>26 ^ 3\<close> labels, that every name is the size followed by a label below the counter
  and no two stored genotypes share a name (\<open>gb_names\<close>). \<open>key_at\<close> is the key of the
  \<open>i\<close>-th creature of a sequence and \<open>bank_before\<close> the genebank that the first \<open>j\<close>
  registrations leave. \<open>digits_value\<close> reads a string of decimal digits back.
\<close>

definition label_count :: "genebank \<Rightarrow> int \<Rightarrow> int" where
  "label_count gb n = (case size_classes gb n of None \<Rightarrow> 0 | Some sc \<Rightarrow> next_label sc)"

definition gb_hashes :: "genebank \<Rightarrow> bool" where
  "gb_hashes gb = (\<forall>k r. lookup gb k = Some r \<longrightarrow> genome_hash (genome (objs gb ! r)) = snd k)"

definition gb_names :: "genebank \<Rightarrow> bool" where
  "gb_names gb =
     ((\<forall>n. 0 \<le> label_count gb n) \<and>
      (\<forall>k r. lookup gb k = Some r \<longrightarrow>
         (\<exists>i. 0 \<le> i \<and> i < label_count gb (fst k) \<and>
              name (objs gb ! r) = fmt04 (fst k) @ int_to_label i)) \<and>
      (\<forall>k k' r r'. lookup gb k = Some r \<and> lookup gb k' = Some r' \<and>
         name (objs gb ! r) = name (objs gb ! r') \<longrightarrow> k = k'))"

definition key_at :: "(cell \<times> soup) list \<Rightarrow> nat \<Rightarrow> int \<times> int" where
  "key_at xs i = reg_key (fst (xs ! i)) (snd (xs ! i))"

definition bank_before :: "genebank \<Rightarrow> (cell \<times> soup) list \<Rightarrow> nat \<Rightarrow> genebank" where
  "bank_before gb xs j = snd (register_seq gb (take j xs))"

definition digit_value :: "char \<Rightarrow> nat" where
  "digit_value c = of_char c - 48"

definition digits_value :: "string \<Rightarrow> nat" where
  "digits_value cs = foldl (\<lambda>a c. 10 * a + digit_value c) 0 cs"

text \<open>
  The two colliding creatures followed by a third whose mother region \<open>[24, 36)\<close> holds
  twelve zero bytes, and the genebanks that the three registrations leave.
\<close>

definition collision_triple :: "(cell \<times> soup) list" where
  "collision_triple = [(Cell_init 0 12, collision_soup), (Cell_init 12 12, collision_soup),
                       (Cell_init 24 12, collision_soup)]"

definition bank1 :: genebank where
  "bank1 =
    \<lparr>size_classes = [12 \<mapsto> \<lparr>genotypes_sc = [373 \<mapsto> 0], next_label = 1\<rparr>],
     genotypes = [''0012aaa'' \<mapsto> 0],
     objs = [\<lparr>name = ''0012aaa'', genome = [2, 0, 5, 5, 5, 5, 5, 5, 5, 5, 5, 5],
              population = 1, origin_time = 0, max_pop = 1, parent = []\<rparr>]\<rparr>"

definition bank2 :: genebank where
  "bank2 =
    \<lparr>size_classes = [12 \<mapsto> \<lparr>genotypes_sc = [373 \<mapsto> 0], next_label = 1\<rparr>],
     genotypes = [''0012aaa'' \<mapsto> 0],
     objs = [\<lparr>name = ''0012aaa'', genome = [2, 0, 5, 5, 5, 5, 5, 5, 5, 5, 5, 5],
              population = 2, origin_time = 0, max_pop = 2, parent = []\<rparr>]\<rparr>"

definition bank3 :: genebank where
  "bank3 =
    \<lparr>size_classes = [12 \<mapsto> \<lparr>genotypes_sc = [373 \<mapsto> 0, 12 \<mapsto> 1], next_label = 2\<rparr>],
     genotypes = [''0012aaa'' \<mapsto> 0, ''0012aab'' \<mapsto> 1],
     objs = [\<lparr>name = ''0012aaa'', genome = [2, 0, 5, 5, 5, 5, 5, 5, 5, 5, 5, 5],
              population = 2, origin_time = 0, max_pop = 2, parent = []\<rparr>,
             \<lparr>name = ''0012aab'', genome = [0, 0, 0, 0, 0, 0, 0, 0, 0, 0, 0, 0],
              population = 1, origin_time = 0, max_pop = 1, parent = []\<rparr>]\<rparr>"

text \<open>
  A 10-byte soup with the given bytes and one cell of size 5 at \<open>[0, 5)\<close> about to execute
  the instruction at address 0; \<open>search_limit\<close> is 1, so the limit of a search is 5.
  Both examples hold \<open>adrf, nop0\<close> at addresses 0 and 1 and \<open>pushC\<close> elsewhere, except for
  one \<open>nop1\<close>: at address 4 in the first, at address 8 in the second.
\<close>

definition template_state :: "int list \<Rightarrow> sim" where
  "template_state bytes =
     (make_cell (Simulation_init (Config_default\<lparr>soup_size := 10, search_limit := 1\<rparr>)
                   (\<lambda>i. 0)) 0 5)
       \<lparr>soup := \<lparr>size_soup = 10, data = bytes,
                  free_blocks = [(5, 5)], owners = [(0, 5, 0)]\<rparr>\<rparr>"

definition template_example :: sim where
  "template_example = template_state [29, 0, 14, 14, 1, 14, 14, 14, 14, 14]"

definition template_far :: sim where
  "template_far = template_state [29, 0, 14, 14, 14, 14, 14, 14, 1, 14]"



text \<open>
  An 80-byte ancestor booted into a 100-byte soup: the cell sits at \<open>[10, 90)\<close>, the free
  list is \<open>[0, 10)\<close> and \<open>[90, 100)\<close>, and the genebank holds \<open>0080aaa\<close> with population 1.
  The bytes of the genome do not matter here; every byte is \<open>pushC\<close>.
\<close>

definition lonely_booted :: sim where
  "lonely_booted =
     \<lparr>config = Config_default\<lparr>soup_size := 100\<rparr>,
      soup = \<lparr>size_soup = 100,
              data = replicate 10 0 @ replicate 80 14 @ replicate 10 0,
              free_blocks = [(0, 10), (90, 10)], owners = [(10, 80, 0)]\<rparr>,
      scheduler = \<lparr>sched_queue = [0], current_idx = 0\<rparr>,
      reaper_queue = [0],
      genebank =
        \<lparr>size_classes = [80 \<mapsto> \<lparr>genotypes_sc = [45408 \<mapsto> 0], next_label = 1\<rparr>],
         genotypes = [''0080aaa'' \<mapsto> 0],
         objs = [\<lparr>name = ''0080aaa'', genome = replicate 80 14, population = 1,
                  origin_time = 0, max_pop = 1, parent = ''0666god''\<rparr>]\<rparr>,
      cells = (\<lambda>i. Cell_init 0 0)
                (0 := (Cell_init 10 80)
                        \<lparr>cpu := CPU_init\<lparr>ip := 10\<rparr>,
                         d := Demographics_init\<lparr>genotype := ''0080aaa'',
                                                parent_genotype := ''0666god''\<rparr>\<rparr>),
      next_id = 1, events_enabled = True, events = [], sim_inst_executed = 0,
      last_repro_inst = 0, rng = (\<lambda>i. 0)\<rparr>"

text \<open>The same state when the cell has computed its size into \<open>C\<close> and is about to run \<open>mal\<close>.\<close>

definition lonely_state :: sim where
  "lonely_state = upd_cell 0 (\<lambda>x. x\<lparr>cpu := (cpu x)\<lparr>cx := 80\<rparr>\<rparr>) lonely_booted"

section \<open>Scheduler: the cursor stays usable\<close>

lemma index_of_less: "index_of c xs = Some i \<Longrightarrow> i < length xs"
  by (induction xs arbitrary: i) (auto split: if_splits option.splits)

lemma length_del_at: "i < length xs \<Longrightarrow> length (del_at i xs) = length xs - 1"
  by (auto simp: del_at_def)

lemma set_del_at: "set (del_at i xs) \<subseteq> set xs"
  by (auto simp: del_at_def dest: in_set_takeD in_set_dropD)

lemma sched_op_idx_nonneg:
  "0 \<le> current_idx s \<Longrightarrow> 0 \<le> current_idx (apply_sched_op s op)"
  by (cases op)
     (auto simp: sched_add_def sched_remove_def sched_advance_def Let_def
           split: option.splits)

lemma run_sched_ops_idx_nonneg_aux:
  "0 \<le> current_idx s \<Longrightarrow> 0 \<le> current_idx (foldl apply_sched_op s ops)"
  by (induction ops arbitrary: s) (auto simp: sched_op_idx_nonneg)

lemma run_sched_ops_idx_nonneg: "0 \<le> current_idx (run_sched_ops ops)"
  unfolding run_sched_ops_def
  by (rule run_sched_ops_idx_nonneg_aux) (simp add: Scheduler_init_def)

lemma sched_current_nonneg:
  assumes "0 \<le> current_idx s"
  shows "(fst (sched_current s) = Inr None) = (sched_queue s = [])"
    and "sched_queue s \<noteq> [] \<Longrightarrow>
           \<exists>c \<in> set (sched_queue s). fst (sched_current s) = Inr (Some c)"
  using assms
  by (auto simp: sched_current_def py_index_def Let_def split: sum.splits if_splits)

text \<open>
  C9. After any sequence of \<open>add\<close>, \<open>remove\<close> and \<open>advance\<close> calls on a fresh scheduler,
  \<open>current()\<close> returns \<open>None\<close> exactly when the queue is empty, and otherwise returns
  (without raising) a cell that is an element of the queue.
\<close>

theorem scheduler_current_in_queue:
  "(fst (sched_current (run_sched_ops ops)) = Inr None) =
     (sched_queue (run_sched_ops ops) = []) \<and>
   (sched_queue (run_sched_ops ops) \<noteq> [] \<longrightarrow>
     (\<exists>c \<in> set (sched_queue (run_sched_ops ops)).
        fst (sched_current (run_sched_ops ops)) = Inr (Some c)))"
  using sched_current_nonneg [OF run_sched_ops_idx_nonneg [of ops]] by blast

theorem scheduler_current_in_queue_witness:
  "sched_queue (run_sched_ops [Add 1, Add 2, Advance, Remove 1]) = [2] \<and>
   fst (sched_current (run_sched_ops [Add 1, Add 2, Advance, Remove 1])) = Inr (Some 2)"
  using scheduler_current_in_queue [of "[Add 1, Add 2, Advance, Remove 1]"]
  by (simp add: run_sched_ops_def Scheduler_init_def sched_add_def sched_remove_def
        sched_advance_def del_at_def)

section \<open>Allocator: allocate then deallocate\<close>

lemma bisect_loop_split:
  assumes "\<forall>x\<in>set xs. x < v" and "\<forall>y\<in>set ys. v \<le> y"
  shows "lo \<le> length xs \<Longrightarrow> length xs \<le> hi \<Longrightarrow> hi \<le> length (xs @ ys)
         \<Longrightarrow> bisect_loop (xs @ ys) v lo hi = length xs"
proof (induction "hi - lo" arbitrary: lo hi rule: less_induct)
  case less
  show ?case
  proof (cases "lo < hi")
    case False
    with less.prems show ?thesis by (simp add: bisect_loop.simps)
  next
    case True
    let ?mid = "(lo + hi) div 2"
    have mid: "lo \<le> ?mid" "?mid < hi" using True by auto
    show ?thesis
    proof (cases "(xs @ ys) ! ?mid < v")
      case lt: True
      have in_xs: "?mid < length xs"
      proof (rule ccontr)
        assume out: "\<not> ?mid < length xs"
        then have "(xs @ ys) ! ?mid = ys ! (?mid - length xs)" by (simp add: nth_append)
        moreover have "?mid - length xs < length ys" using mid less.prems out by auto
        ultimately have "v \<le> (xs @ ys) ! ?mid" using assms(2) by (metis nth_mem)
        with lt show False by simp
      qed
      have "bisect_loop (xs @ ys) v (?mid + 1) hi = length xs"
        by (rule less.hyps) (use in_xs mid less.prems in auto)
      then show ?thesis using True lt by (subst bisect_loop.simps) (simp add: Let_def)
    next
      case ge: False
      have out_xs: "length xs \<le> ?mid"
      proof (rule ccontr)
        assume "\<not> length xs \<le> ?mid"
        then have "(xs @ ys) ! ?mid = xs ! ?mid" "?mid < length xs" by (simp_all add: nth_append)
        then have "(xs @ ys) ! ?mid < v" using assms(1) by (metis nth_mem)
        with ge show False by simp
      qed
      have "bisect_loop (xs @ ys) v lo ?mid = length xs"
        by (rule less.hyps) (use out_xs mid less.prems in auto)
      then show ?thesis using True ge by (subst bisect_loop.simps) (simp add: Let_def)
    qed
  qed
qed

lemma bisect_left_split:
  "\<forall>x\<in>set xs. x < v \<Longrightarrow> \<forall>y\<in>set ys. v \<le> y \<Longrightarrow> bisect_left (xs @ ys) v = length xs"
  unfolding bisect_left_def by (rule bisect_loop_split) auto

lemma first_fit_Some:
  "first_fit bs n i = Some k \<Longrightarrow> i \<le> k \<and> k - i < length bs \<and> n \<le> snd (bs ! (k - i))"
proof (induction bs n i rule: first_fit.induct)
  case (1 n i)
  then show ?case by simp
next
  case (2 pos sz bs n i)
  show ?case
  proof (cases "sz \<ge> n")
    case True
    with 2 show ?thesis by simp
  next
    case False
    with 2 have "Suc i \<le> k \<and> k - Suc i < length bs \<and> n \<le> snd (bs ! (k - Suc i))" by simp
    moreover from this have "k - i = Suc (k - Suc i)" by arith
    ultimately show ?thesis by simp
  qed
qed

lemma better_fit_Some:
  "better_fit bs n i best = Some (k, sz) \<Longrightarrow>
     best = Some (k, sz) \<or> (i \<le> k \<and> k - i < length bs \<and> n \<le> snd (bs ! (k - i)))"
proof (induction bs n i best rule: better_fit.induct)
  case (1 n i best)
  then show ?case by simp
next
  case (2 pos sz' bs n i best)
  let ?b = "(if sz' \<ge> n \<and> (case best of None \<Rightarrow> True | Some (bi, bsz) \<Rightarrow> sz' < bsz)
        then Some (i, sz') else best)"
  from 2 have "?b = Some (k, sz) \<or> (Suc i \<le> k \<and> k - Suc i < length bs \<and> n \<le> snd (bs ! (k - Suc i)))"
    by simp
  then show ?case
  proof
    assume "?b = Some (k, sz)"
    then show ?thesis by (auto split: if_splits)
  next
    assume a: "Suc i \<le> k \<and> k - Suc i < length bs \<and> n \<le> snd (bs ! (k - Suc i))"
    then have "k - i = Suc (k - Suc i)" by arith
    with a show ?thesis by simp
  qed
qed

lemma adequate_mem:
  "k \<in> set (adequate bs n i) \<Longrightarrow> i \<le> k \<and> k - i < length bs \<and> n \<le> snd (bs ! (k - i))"
proof (induction bs n i rule: adequate.induct)
  case (1 n i)
  then show ?case by simp
next
  case (2 pos sz bs n i)
  show ?case
  proof (cases "k = i")
    case True
    with 2 show ?thesis by (auto split: if_splits)
  next
    case False
    with 2 have a: "Suc i \<le> k \<and> k - Suc i < length bs \<and> n \<le> snd (bs ! (k - Suc i))"
      by (auto split: if_splits)
    then have "k - i = Suc (k - Suc i)" by arith
    with a show ?thesis by simp
  qed
qed

lemma near_fit_Some:
  "near_fit tot hint bs n i best = Some (k, dd) \<Longrightarrow>
     best = Some (k, dd) \<or> (i \<le> k \<and> k - i < length bs \<and> n \<le> snd (bs ! (k - i)))"
proof (induction tot hint bs n i best rule: near_fit.induct)
  case (1 tot hint n i best)
  then show ?case by simp
next
  case (2 tot hint pos sz' bs n i best)
  let ?b = "(if sz' \<ge> n
        then (let dist = min \<bar>pos - hint\<bar> (tot - \<bar>pos - hint\<bar>)
              in if (case best of None \<Rightarrow> True | Some (bi, bd) \<Rightarrow> dist < bd)
                 then Some (i, dist) else best)
        else best)"
  from 2 have "?b = Some (k, dd) \<or> (Suc i \<le> k \<and> k - Suc i < length bs \<and> n \<le> snd (bs ! (k - Suc i)))"
    by simp
  then show ?case
  proof
    assume "?b = Some (k, dd)"
    then show ?thesis by (auto simp: Let_def split: if_splits)
  next
    assume a: "Suc i \<le> k \<and> k - Suc i < length bs \<and> n \<le> snd (bs ! (k - Suc i))"
    then have "k - i = Suc (k - Suc i)" by arith
    with a show ?thesis by simp
  qed
qed

lemma choose_block_Some:
  assumes "choose_block s n mode hint tol g = (Some idx, g')"
  shows "idx < length (free_blocks s) \<and> n \<le> snd (free_blocks s ! idx)"
proof -
  consider (m0) "mode = 0" | (m1) "mode = 1" | (m2) "mode = 2"
    | (m3) "mode \<noteq> 0" "mode \<noteq> 1" "mode \<noteq> 2" "mode \<in> {3, 4, 5, 6} \<and> hint \<ge> 0"
    | (other) "mode \<noteq> 0" "mode \<noteq> 1" "mode \<noteq> 2" "\<not> (mode \<in> {3, 4, 5, 6} \<and> hint \<ge> 0)"
    by blast
  then show ?thesis
  proof cases
    case m0
    with assms have "first_fit (free_blocks s) n 0 = Some idx" by (simp add: choose_block_def)
    from first_fit_Some[OF this] show ?thesis by simp
  next
    case m1
    with assms obtain sz where "better_fit (free_blocks s) n 0 None = Some (idx, sz)"
      by (auto simp: choose_block_def)
    from better_fit_Some[OF this] show ?thesis by simp
  next
    case m2
    let ?ad = "adequate (free_blocks s) n 0"
    from m2 assms have ne: "?ad \<noteq> []" and "idx = ?ad ! (g 0 mod length ?ad)"
      by (auto simp: choose_block_def choice_def Let_def split: if_splits)
    then have "idx \<in> set ?ad" by simp
    from adequate_mem[OF this] show ?thesis by simp
  next
    case m3
    with assms obtain dd where "near_fit (size_soup s) hint (free_blocks s) n 0 None = Some (idx, dd)"
      by (auto simp: choose_block_def split: option.splits if_splits)
    from near_fit_Some[OF this] show ?thesis by simp
  next
    case other
    with assms obtain sz where "better_fit (free_blocks s) n 0 None = Some (idx, sz)"
      by (auto simp: choose_block_def)
    from better_fit_Some[OF this] show ?thesis by simp
  qed
qed


lemma deallocate_after_split:
  assumes wf: "well_formed_free s"
    and idx: "idx < length (free_blocks s)"
    and blk: "free_blocks s ! idx = (pos, bsz)"
    and n: "0 \<le> n" "n \<le> bsz"
    and fb': "fb' = (if bsz = n then del_at idx (free_blocks s)
                    else (free_blocks s)[idx := (pos + n, bsz - n)])"
  shows "deallocate (s\<lparr>free_blocks := fb'\<rparr>) pos n = s"
proof -
  define xs where "xs = take idx (free_blocks s)"
  define ys where "ys = drop (Suc idx) (free_blocks s)"
  have fb: "free_blocks s = xs @ (pos, bsz) # ys"
    unfolding xs_def ys_def using id_take_nth_drop[OF idx] blk by simp
  have len: "length xs = idx" unfolding xs_def using idx by simp
  from wf fb have before: "\<forall>b\<in>set xs. fst b + snd b < pos"
    and after: "\<forall>c\<in>set ys. pos + bsz < fst c"
    and bounds: "\<forall>b\<in>set xs. 0 < snd b" "0 \<le> pos" "0 < bsz" "pos + bsz \<le> size_soup s"
    by (auto simp: well_formed_free_def sorted_wrt_append)
  have pos_mod: "pos mod size_soup s = pos" using bounds by simp
  have lt: "\<forall>x\<in>set (map fst xs). x < pos" using before bounds(1) by fastforce
  have prev_no: "xs \<noteq> [] \<Longrightarrow> fst (last xs) + snd (last xs) \<noteq> pos"
    using before last_in_set by fastforce
  show ?thesis
  proof (cases "bsz = n")
    case True
    then have fb'_eq: "fb' = xs @ ys"
      using fb' fb len by (simp add: del_at_def)
    have ge: "\<forall>y\<in>set (map fst ys). pos \<le> y" using after bounds by fastforce
    have bis: "bisect_left (map fst fb') pos = idx"
      using bisect_left_split[OF lt ge] fb'_eq len by simp
    have ins: "insert_at idx (pos, n) fb' = free_blocks s"
      using fb'_eq fb len True by (simp add: insert_at_def)
    have next_no: "merge_next idx (free_blocks s) = free_blocks s"
    proof (cases ys)
      case Nil
      then show ?thesis using fb len by (simp add: merge_next_def)
    next
      case (Cons c cs)
      then have "pos + bsz < fst c" using after by simp
      then show ?thesis using fb len Cons
        by (simp add: merge_next_def Let_def nth_append)
    qed
    have prev_no': "merge_prev idx (free_blocks s) = free_blocks s"
    proof (cases "idx = 0")
      case True
      then show ?thesis by (simp add: merge_prev_def)
    next
      case False
      then have ne: "xs \<noteq> []" using len by auto
      have "(free_blocks s) ! (idx - 1) = last xs"
        using fb len ne False by (simp add: nth_append last_conv_nth)
      then show ?thesis using prev_no[OF ne] blk False
        by (simp add: merge_prev_def Let_def)
    qed
    show ?thesis
      by (simp add: deallocate_def Let_def pos_mod bis ins next_no prev_no')
  next
    case False
    then have fb'_eq: "fb' = xs @ (pos + n, bsz - n) # ys"
      using fb' fb len by (simp add: list_update_append)
    have ge: "\<forall>y\<in>set (map fst ((pos + n, bsz - n) # ys)). pos \<le> y"
      using after bounds n by fastforce
    have bis: "bisect_left (map fst fb') pos = idx"
      using bisect_left_split[OF lt ge] fb'_eq len by simp
    have ins: "insert_at idx (pos, n) fb' = xs @ (pos, n) # (pos + n, bsz - n) # ys"
      using fb'_eq len by (simp add: insert_at_def)
    have nxt: "merge_next idx (xs @ (pos, n) # (pos + n, bsz - n) # ys) = free_blocks s"
      using len fb by (simp add: merge_next_def Let_def nth_append del_at_def list_update_append)
    have prev_no': "merge_prev idx (free_blocks s) = free_blocks s"
    proof (cases "idx = 0")
      case True
      then show ?thesis by (simp add: merge_prev_def)
    next
      case False
      then have ne: "xs \<noteq> []" using len by auto
      have "(free_blocks s) ! (idx - 1) = last xs"
        using fb len ne False by (simp add: nth_append last_conv_nth)
      then show ?thesis using prev_no[OF ne] blk False
        by (simp add: merge_prev_def Let_def)
    qed
    show ?thesis
      by (simp add: deallocate_def Let_def pos_mod bis ins nxt prev_no')
  qed
qed

text \<open>
  C8. For every well-formed free list and every allocation mode (with any hint,
  tolerance and generator state), if \<open>allocate(size, mode)\<close> for a size \<open>size \<ge> 0\<close>
  returns \<open>(pos, size)\<close>, then \<open>deallocate(pos, size)\<close> called right afterwards
  restores the free list, and so the whole soup, to exactly what it was.
\<close>

theorem allocate_then_deallocate_restores:
  assumes "well_formed_free s" and "0 \<le> n"
    and "allocate s n mode hint_addr tolerance g = (Some (pos, sz), s', g')"
  shows "sz = n \<and> deallocate s' pos sz = s"
proof -
  from assms(3) obtain idx g1 where
    ch: "choose_block s n mode hint_addr tolerance g = (Some idx, g1)"
    by (auto simp: allocate_def split: if_splits option.splits prod.splits)
  from choose_block_Some[OF ch] have idx: "idx < length (free_blocks s)"
    and fits: "n \<le> snd (free_blocks s ! idx)" by simp_all
  obtain p bsz where blk: "free_blocks s ! idx = (p, bsz)" by (cases "free_blocks s ! idx")
  from assms(3) ch blk have res: "pos = p" "sz = n"
    "s' = s\<lparr>free_blocks := (if bsz = n then del_at idx (free_blocks s)
                             else (free_blocks s)[idx := (p + n, bsz - n)])\<rparr>"
    by (auto simp: allocate_def Let_def split: if_splits)
  from fits blk have "n \<le> bsz" by simp
  from deallocate_after_split[OF assms(1) idx blk assms(2) this refl] res
  show ?thesis by simp
qed


lemma wf_three: "well_formed_free soup_three_gaps"
  by (simp add: well_formed_free_def soup_three_gaps_def)

lemma alloc_three: "allocate soup_three_gaps 15 1 (- 1) (- 1) (\<lambda>i. 0) =
     (Some (180, 15), soup_three_gaps\<lparr>free_blocks := [(0, 100), (195, 5), (900, 100)]\<rparr>, \<lambda>i. 0)"
  by (simp add: allocate_def choose_block_def soup_three_gaps_def)

theorem allocate_then_deallocate_restores_witness:
  "well_formed_free soup_three_gaps \<and>
   allocate soup_three_gaps 15 1 (- 1) (- 1) (\<lambda>i. 0) =
     (Some (180, 15), soup_three_gaps\<lparr>free_blocks := [(0, 100), (195, 5), (900, 100)]\<rparr>, \<lambda>i. 0) \<and>
   deallocate (soup_three_gaps\<lparr>free_blocks := [(0, 100), (195, 5), (900, 100)]\<rparr>) 180 15
     = soup_three_gaps"
  using allocate_then_deallocate_restores [OF wf_three _ alloc_three] wf_three alloc_three
  by simp

section \<open>Divide: a failed precondition changes only the error flag\<close>







lemma bit_length_numeral:
  "bit_length (numeral n) = Suc (bit_length (numeral n div 2))"
  "bit_length 0 = 0"
  "bit_length (Suc 0) = Suc 0"
  by (simp_all add: bit_length.simps[of "numeral n"] bit_length.simps[of 0]
        bit_length.simps[of "Suc 0"])

lemmas double_eval = double_mul_def double_of_int_def round_double_def round_half_even_def
  double_floor_def int_of_double_def bit_length_numeral Let_def

text \<open>
  The copy threshold at the default \<open>0.7\<close>: \<open>int(80 * 0.7) = 56\<close>, and the rounding of the
  product shows in \<open>int(90 * 0.7) = 62\<close> and \<open>int(10 * 0.7) = 7\<close>.
\<close>

lemma copy_threshold_default:
  "int_of_double (double_mul (double_of_int 80) (mov_prop_thr_div Config_default)) = 56"
  "int_of_double (double_mul (double_of_int 90) (mov_prop_thr_div Config_default)) = 62"
  "int_of_double (double_mul (double_of_int 10) (mov_prop_thr_div Config_default)) = 7"
  by (simp_all add: Config_default_def double_eval)


lemma dts_cell: "cells divide_test_state 0 =
   (Cell_init 100 80)\<lparr>cpu := CPU_init\<lparr>ip := 100\<rparr>, md := Some \<lparr>pos_r = 500, size_r = 80\<rparr>,
       d := Demographics_init\<lparr>mov_daught := 10\<rparr>\<rparr>"
  by (simp add: divide_test_state_def make_cell_def Simulation_init_def upd_cell_def Let_def Cell_init_def)

lemma dts_config: "config divide_test_state = Config_default\<lparr>soup_size := 10000\<rparr>"
  by (simp add: divide_test_state_def make_cell_def Simulation_init_def upd_cell_def Let_def)

lemma dts_next_id: "next_id divide_test_state = Suc 0"
  by (simp add: divide_test_state_def make_cell_def Simulation_init_def upd_cell_def Let_def)



text \<open>
  At the threshold itself the division goes through. With a daughter of 90 bytes and the
  default \<open>0.7\<close> the threshold is 62 (the double product is just below 63), so a cell
  that has copied 62 bytes divides: its daughter pointer is cleared, its fecundity is 1
  and \<open>E\<close> is clear.
\<close>

lemma divide_at_threshold:
  "md (cells (divide None (upd_cell 0 (\<lambda>x. x\<lparr>md := Some \<lparr>pos_r = 500, size_r = 90\<rparr>,
                                              d := (d x)\<lparr>mov_daught := 62\<rparr>\<rparr>) divide_test_state) 0) 0)
     = None \<and>
   fecundity (d (cells (divide None (upd_cell 0 (\<lambda>x. x\<lparr>md := Some \<lparr>pos_r = 500, size_r = 90\<rparr>,
                                              d := (d x)\<lparr>mov_daught := 62\<rparr>\<rparr>) divide_test_state) 0) 0))
     = 1 \<and>
   \<not> flag_e (cpu (cells (divide None (upd_cell 0 (\<lambda>x. x\<lparr>md := Some \<lparr>pos_r = 500, size_r = 90\<rparr>,
                                              d := (d x)\<lparr>mov_daught := 62\<rparr>\<rparr>) divide_test_state) 0) 0))"
  by (simp add: divide_def upd_cell_def dts_cell dts_config dts_next_id double_eval emit_def
        reaper_add_def
        Config_default_def Cell_init_def Demographics_init_def split_beta)

section \<open>Reaper: lazy kill and disturbance\<close>

lemma reap_cell_reaper_queue: "reaper_queue (reap_cell v S) = remove1 v (reaper_queue S)"
  by (simp add: reap_cell_def Let_def upd_cell_def emit_def reaper_remove_def
           split: prod.splits option.splits)

lemma reap_cell_cells_other: "c \<noteq> v \<Longrightarrow> cells (reap_cell v S) c = cells S c"
  by (simp add: reap_cell_def Let_def upd_cell_def emit_def reaper_remove_def
           split: prod.splits option.splits)

lemma reap_cell_victim:
  "\<not> alive (cells (reap_cell v S) v) \<and> md (cells (reap_cell v S) v) = None"
  by (simp add: reap_cell_def Let_def upd_cell_def emit_def reaper_remove_def
           split: prod.splits option.splits)

lemma reap_cell_events:
  "events (reap_cell v S) =
     (if events_enabled S then events S @ [CELL_DIED v ''reaper''] else events S)"
  by (simp add: reap_cell_def Let_def upd_cell_def emit_def reaper_remove_def
           split: prod.splits option.splits)

lemma reap_cell_sched_queue:
  "scheduler (reap_cell v S) = sched_remove v (scheduler S)"
  by (simp add: reap_cell_def Let_def upd_cell_def emit_def reaper_remove_def
           split: prod.splits option.splits)

lemma index_of_None: "index_of c xs = None \<Longrightarrow> remove1 c xs = xs"
  by (induction xs) (auto split: if_splits option.splits)

lemma index_of_Some_remove1: "index_of c xs = Some i \<Longrightarrow> del_at i xs = remove1 c xs"
  by (induction xs arbitrary: i) (auto simp: del_at_def split: if_splits option.splits)

lemma sched_remove_queue: "sched_queue (sched_remove c s) = remove1 c (sched_queue s)"
  by (auto simp: sched_remove_def Let_def index_of_None index_of_Some_remove1 split: option.splits)

lemma randint_index:
  "0 < n \<Longrightarrow> nat (fst (randint 0 (int n - 1) g)) < n"
  by (simp add: randint_def)

lemma length_remove1_mem: "x \<in> set xs \<Longrightarrow> int (length (remove1 x xs)) = int (length xs) - 1"
proof -
  assume "x \<in> set xs"
  then have "0 < length xs" by (rule length_pos_if_in_set)
  moreover have "length (remove1 x xs) = length xs - 1"
    using \<open>x \<in> set xs\<close> by (simp add: length_remove1)
  ultimately show ?thesis by linarith
qed

lemma disturbance_loop_props:
  assumes "reaper_queue S \<noteq> []"
  shows "case disturbance_loop k cur killed S of
           (killed', S') \<Rightarrow>
             reaper_queue S' \<noteq> [] \<and> killed \<le> killed' \<and> killed' \<le> killed + int k \<and>
             int (length (reaper_queue S')) = int (length (reaper_queue S)) - (killed' - killed) \<and>
             set (reaper_queue S') \<subseteq> set (reaper_queue S) \<and>
             (\<forall>c. cur = Some c \<longrightarrow>
                  cells S' c = cells S c \<and>
                  (c \<in> set (reaper_queue S) \<longrightarrow> c \<in> set (reaper_queue S')))"
  using assms
proof (induction k arbitrary: killed S)
  case 0
  then show ?case by simp
next
  case (Suc k)
  show ?case
  proof (cases "length (reaper_queue S) \<le> 1")
    case True
    with Suc.prems show ?thesis by simp
  next
    case False
    define n where "n = length (reaper_queue S)"
    define g' where "g' = snd (randint 0 (int n - 1) (rng S))"
    define i where "i = nat (fst (randint 0 (int n - 1) (rng S)))"
    define S1 where "S1 = S\<lparr>rng := g'\<rparr>"
    define victim where "victim = reaper_queue S ! i"
    have n2: "2 \<le> n" using False n_def by simp
    have i: "i < n" unfolding i_def using randint_index[of n] n2 by simp
    have vin: "victim \<in> set (reaper_queue S)" unfolding victim_def using i n_def by simp
    have S1q: "reaper_queue S1 = reaper_queue S" "cells S1 = cells S" by (simp_all add: S1_def)
    have step: "disturbance_loop (Suc k) cur killed S =
        (if Some victim = cur then disturbance_loop k cur killed S1
         else disturbance_loop k cur (killed + 1) (reap_cell victim S1))"
      using False
      by (simp add: Let_def split_beta S1_def g'_def victim_def i_def n_def)
    show ?thesis
    proof (cases "Some victim = cur")
      case True
      have "reaper_queue S1 \<noteq> []" using Suc.prems S1q by simp
      from Suc.IH[OF this, of killed] step True S1q show ?thesis
        by (auto split: prod.splits)
    next
      case neq: False
      let ?S2 = "reap_cell victim S1"
      have q2: "reaper_queue ?S2 = remove1 victim (reaper_queue S)"
        by (simp add: reap_cell_reaper_queue S1q)
      have len2: "int (length (reaper_queue ?S2)) = int (length (reaper_queue S)) - 1"
        using q2 vin length_remove1_mem by simp
      then have ne2: "reaper_queue ?S2 \<noteq> []" using n2 n_def by auto
      have sub2: "set (reaper_queue ?S2) \<subseteq> set (reaper_queue S)"
        using q2 set_remove1_subset by metis
      have keep: "\<And>c. cur = Some c \<Longrightarrow> cells ?S2 c = cells S c \<and>
                  (c \<in> set (reaper_queue S) \<longrightarrow> c \<in> set (reaper_queue ?S2))"
        using neq q2 by (auto simp: reap_cell_cells_other S1q)
      obtain k' S' where res: "disturbance_loop k cur (killed + 1) ?S2 = (k', S')"
        by (cases "disturbance_loop k cur (killed + 1) ?S2")
      from Suc.IH[OF ne2, of "killed + 1"] res
      have ih: "reaper_queue S' \<noteq> []" "killed + 1 \<le> k'" "k' \<le> killed + 1 + int k"
        "int (length (reaper_queue S')) = int (length (reaper_queue ?S2)) - (k' - (killed + 1))"
        "set (reaper_queue S') \<subseteq> set (reaper_queue ?S2)"
        "\<forall>c. cur = Some c \<longrightarrow> cells S' c = cells ?S2 c \<and>
                  (c \<in> set (reaper_queue ?S2) \<longrightarrow> c \<in> set (reaper_queue S'))"
        by simp_all
      have eq: "disturbance_loop (Suc k) cur killed S = (k', S')" using step neq res by simp
      have "int (length (reaper_queue S')) = int (length (reaper_queue S)) - (k' - killed)"
        using ih(4) len2 by simp
      moreover have "set (reaper_queue S') \<subseteq> set (reaper_queue S)" using ih(5) sub2 by blast
      moreover have "\<forall>c. cur = Some c \<longrightarrow> cells S' c = cells S c \<and>
                  (c \<in> set (reaper_queue S) \<longrightarrow> c \<in> set (reaper_queue S'))"
        using ih(6) keep by auto
      ultimately show ?thesis unfolding eq using ih(1,2,3) by simp
    qed
  qed
qed


lemma sched_current_returns:
  "0 \<le> current_idx s \<Longrightarrow> \<exists>r. fst (sched_current s) = Inr r"
  by (auto simp: sched_current_def py_index_def Let_def split: sum.splits if_splits)


text \<open>
  C10. \<open>disturbance()\<close> never kills the last creature: when the reaper queue is not
  empty before the call (and the scheduler cursor is not negative, as after any
  sequence of scheduler operations), the call returns, at least one creature remains in
  the reaper queue, and the creature that was executing is still in the queue with its
  alive flag untouched.
\<close>

theorem disturbance_never_kills_last:
  assumes "reaper_queue S \<noteq> []" and "0 \<le> current_idx (scheduler S)"
  shows "\<exists>killed S'. disturbance S = Inr (killed, S') \<and> reaper_queue S' \<noteq> [] \<and>
           (\<forall>c. fst (sched_current (scheduler S)) = Inr (Some c) \<longrightarrow>
                  c \<in> set (reaper_queue S) \<longrightarrow>
                  c \<in> set (reaper_queue S') \<and> alive (cells S' c) = alive (cells S c))"
proof -
  obtain r sch where cur: "sched_current (scheduler S) = (Inr r, sch)"
    using sched_current_returns[OF assms(2)] by (cases "sched_current (scheduler S)") auto
  let ?S0 = "S\<lparr>scheduler := sch\<rparr>"
  obtain k S' where loop: "disturbance_loop (nat (num_to_kill S)) r 0 ?S0 = (k, S')"
    by (cases "disturbance_loop (nat (num_to_kill S)) r 0 ?S0")
  have ne: "reaper_queue ?S0 \<noteq> []" using assms(1) by simp
  from disturbance_loop_props[OF ne, where k = "nat (num_to_kill S)" and cur = r and killed = 0] loop
  have "reaper_queue S' \<noteq> []"
    and "\<forall>c. r = Some c \<longrightarrow> cells S' c = cells S c \<and>
              (c \<in> set (reaper_queue S) \<longrightarrow> c \<in> set (reaper_queue S'))"
    by simp_all
  moreover have "disturbance S = Inr (k, S')"
    using assms(1) cur loop by (simp add: disturbance_def)
  ultimately show ?thesis using cur by auto
qed

text \<open>
  C3, as the code has it. When \<open>lazy_tol\<close> is positive, a creature with fecundity at
  least 1 that has executed more than \<open>lazy_tol * mother.size\<close> instructions since its last
  division is reaped by \<open>check_lazy\<close>: the call returns true, the creature's alive flag is
  cleared, its daughter pointer is cleared, it leaves the reaper queue and the scheduler
  queue, and one \<open>CELL_DIED\<close> event for it is emitted (when the bus is enabled).
\<close>

theorem check_lazy_reaps:
  assumes "0 < lazy_tol (config S)"
    and "1 \<le> fecundity (d (cells S c))"
    and "lazy_tol (config S) * size_r (mm (cells S c)) < rep_inst (d (cells S c))"
  shows "\<exists>S'. check_lazy c S = (True, S') \<and>
           \<not> alive (cells S' c) \<and> md (cells S' c) = None \<and>
           reaper_queue S' = remove1 c (reaper_queue S) \<and>
           sched_queue (scheduler S') = remove1 c (sched_queue (scheduler S)) \<and>
           (events_enabled S \<longrightarrow> (\<exists>cause. events S' = events S @ [CELL_DIED c cause]))"
proof -
  have "check_lazy c S = (True, reap_cell c S)"
    using assms by (simp add: check_lazy_def Let_def mult.commute)
  then show ?thesis
    using reap_cell_victim[of c S]
    by (simp add: reap_cell_reaper_queue reap_cell_sched_queue sched_remove_queue reap_cell_events)
qed


lemma lazy_example_fields:
  "config (lazy_example tol n) = Config_default\<lparr>soup_size := 10000, lazy_tol := tol\<rparr>"
  "d (cells (lazy_example tol n) 0) = Demographics_init\<lparr>fecundity := 1, rep_inst := n\<rparr>"
  "mm (cells (lazy_example tol n) 0) = \<lparr>pos_r = 100, size_r = 80\<rparr>"
  "events (lazy_example tol n) = []"
  "events_enabled (lazy_example tol n)"
  "reaper_queue (lazy_example tol n) = [0]"
  "sched_queue (scheduler (lazy_example tol n)) = [0]"
  by (simp_all add: lazy_example_def make_cell_def Simulation_init_def upd_cell_def Let_def
        Cell_init_def reaper_add_def sched_add_def Scheduler_init_def)

text \<open>
  With \<open>lazy_tol = 0\<close> the guard at the top of \<open>check_lazy\<close> returns at once: a creature
  that divided once and has executed one instruction (more than \<open>0 * 80\<close>) is not
  reaped. And where \<open>check_lazy\<close> does reap (\<open>lazy_tol = 10\<close>, 801 instructions, size 80),
  the event it emits carries the cause \<open>reaper\<close>.
\<close>

theorem check_lazy_counterexample:
  "1 \<le> fecundity (d (cells (lazy_example 0 1) 0)) \<and>
   lazy_tol (config (lazy_example 0 1)) * size_r (mm (cells (lazy_example 0 1) 0))
     < rep_inst (d (cells (lazy_example 0 1) 0)) \<and>
   check_lazy 0 (lazy_example 0 1) = (False, lazy_example 0 1) \<and>
   fst (check_lazy 0 (lazy_example 10 801)) \<and>
   events (snd (check_lazy 0 (lazy_example 10 801))) = [CELL_DIED 0 ''reaper'']"
  by (simp add: check_lazy_def lazy_example_fields Config_default_def Demographics_init_def
        reap_cell_events)

theorem check_lazy_reaps_witness:
  "0 < lazy_tol (config (lazy_example 10 801)) \<and>
   1 \<le> fecundity (d (cells (lazy_example 10 801) 0)) \<and>
   lazy_tol (config (lazy_example 10 801)) * size_r (mm (cells (lazy_example 10 801) 0))
     < rep_inst (d (cells (lazy_example 10 801) 0)) \<and>
   (\<exists>S'. check_lazy 0 (lazy_example 10 801) = (True, S') \<and>
      \<not> alive (cells S' 0) \<and> md (cells S' 0) = None \<and>
      reaper_queue S' = [] \<and> sched_queue (scheduler S') = [] \<and>
      (\<exists>cause. events S' = [CELL_DIED 0 cause]))"
  using check_lazy_reaps [of "lazy_example 10 801" 0]
  by (simp add: lazy_example_fields Config_default_def Demographics_init_def)

lemma population10_fields:
  "reaper_queue (population10 g) = [0, 1, 2, 3, 4, 5, 6, 7, 8, 9]"
  "dist_prop (config (population10 g)) = \<lparr>mant = 7205759403792794, expo = - 55\<rparr>"
  "rng (population10 g) = g"
  by (simp_all add: population10_def Config_default_def)

lemma population10_current:
  "sched_current (scheduler (population10 g)) = (Inr (Some 0), scheduler (population10 g))"
  by (simp add: population10_def sched_current_def py_index_def)



theorem disturbance_never_kills_last_witness:
  "reaper_queue (population10 (\<lambda>i. 3)) \<noteq> [] \<and>
   0 \<le> current_idx (scheduler (population10 (\<lambda>i. 3))) \<and>
   (\<exists>killed S'. disturbance (population10 (\<lambda>i. 3)) = Inr (killed, S') \<and>
      reaper_queue S' \<noteq> [] \<and> 0 \<in> set (reaper_queue S') \<and> alive (cells S' 0))"
proof -
  have h1: "reaper_queue (population10 (\<lambda>i. 3)) \<noteq> []" by (simp add: population10_fields)
  have h2: "0 \<le> current_idx (scheduler (population10 (\<lambda>i. 3)))" by (simp add: population10_def)
  have cur: "fst (sched_current (scheduler (population10 (\<lambda>i. 3)))) = Inr (Some 0)"
    by (simp add: population10_current)
  have mem: "0 \<in> set (reaper_queue (population10 (\<lambda>i. 3)))" by (simp add: population10_fields)
  have al: "alive (cells (population10 (\<lambda>i. 3)) 0)" by (simp add: population10_def Cell_init_def)
  from disturbance_never_kills_last [OF h1 h2] obtain killed S' where
    res: "disturbance (population10 (\<lambda>i. 3)) = Inr (killed, S')" "reaper_queue S' \<noteq> []"
    and keep: "\<forall>c. fst (sched_current (scheduler (population10 (\<lambda>i. 3)))) = Inr (Some c) \<longrightarrow>
                  c \<in> set (reaper_queue (population10 (\<lambda>i. 3))) \<longrightarrow>
                  c \<in> set (reaper_queue S') \<and>
                  alive (cells S' c) = alive (cells (population10 (\<lambda>i. 3)) c)"
    by blast
  from keep[rule_format, OF cur mem] al have "0 \<in> set (reaper_queue S')" "alive (cells S' 0)"
    by simp_all
  with res have "\<exists>killed S'. disturbance (population10 (\<lambda>i. 3)) = Inr (killed, S') \<and>
      reaper_queue S' \<noteq> [] \<and> 0 \<in> set (reaper_queue S') \<and> alive (cells S' 0)"
    by (intro exI[of _ killed] exI[of _ S']) simp
  with h1 h2 show ?thesis by simp
qed










text \<open>
  With the float \<open>0.7\<close> in place of \<open>0.2\<close> the target for ten creatures is 7, the value of
  \<open>int(10 * 0.7)\<close>.
\<close>

lemma population10_target_rounded:
  "num_to_kill ((population10 g)\<lparr>config := (config (population10 g))
       \<lparr>dist_prop := \<lparr>mant = 6305039478318694, expo = - 53\<rparr>\<rparr>\<rparr>) = 7"
  by (simp add: num_to_kill_def population10_fields double_eval)



section \<open>Genebank: which creatures share a genotype\<close>

lemma rb1: "read_block collision_soup 0 12 = [2, 0, 5, 5, 5, 5, 5, 5, 5, 5, 5, 5]"
  by (simp add: read_block_def collision_soup_def py_slice_def slice_bound_def)

lemma rb2: "read_block collision_soup 12 12 = [0, 1, 5, 5, 5, 5, 5, 5, 5, 5, 5, 5]"
  by (simp add: read_block_def collision_soup_def py_slice_def slice_bound_def)

lemma h1: "genome_hash [2, 0, 5, 5, 5, 5, 5, 5, 5, 5, 5, 5] = 373"
  by (simp add: genome_hash_def)

lemma h2: "genome_hash [0, 1, 5, 5, 5, 5, 5, 5, 5, 5, 5, 5] = 373"
  by (simp add: genome_hash_def)

lemma nm: "fmt04 12 @ int_to_label 0 = ''0012aaa''"
  by (simp add: fmt04_def int_to_label_def letter_def decimal.simps digit_def numeral_2_eq_2)


lemma register_lookup_self:
  "register gb c s = (gt, gb', c') \<Longrightarrow> lookup gb' (reg_key c s) = Some gt"
  by (auto simp: register_def reg_key_def lookup_def Let_def next_name_def
           split: option.splits prod.splits)

lemma register_lookup_other:
  "register gb c s = (gt, gb', c') \<Longrightarrow> k \<noteq> reg_key c s \<Longrightarrow> lookup gb' k = lookup gb k"
  by (cases k)
     (auto simp: register_def reg_key_def lookup_def Let_def next_name_def
           split: option.splits prod.splits if_splits)

lemma register_hit:
  "register gb c s = (gt, gb', c') \<Longrightarrow> lookup gb (reg_key c s) = Some r \<Longrightarrow>
     gt = r \<and> length (objs gb') = length (objs gb)"
  by (auto simp: register_def reg_key_def lookup_def Let_def next_name_def
           split: option.splits prod.splits)

lemma register_miss:
  "register gb c s = (gt, gb', c') \<Longrightarrow> lookup gb (reg_key c s) = None \<Longrightarrow>
     gt = length (objs gb) \<and> length (objs gb') = Suc (length (objs gb))"
  by (auto simp: register_def reg_key_def lookup_def Let_def next_name_def
           split: option.splits prod.splits)

lemma nth_update_pop:
  "name (xs[i := (xs ! i)\<lparr>population := p, max_pop := m\<rparr>] ! j) = name (xs ! j)"
  "genome (xs[i := (xs ! i)\<lparr>population := p, max_pop := m\<rparr>] ! j) = genome (xs ! j)"
proof -
  show "name (xs[i := (xs ! i)\<lparr>population := p, max_pop := m\<rparr>] ! j) = name (xs ! j)"
  proof (cases "i < length xs")
    case True
    then show ?thesis by (cases "j = i") simp_all
  next
    case False
    then show ?thesis by (simp add: list_update_beyond)
  qed
  show "genome (xs[i := (xs ! i)\<lparr>population := p, max_pop := m\<rparr>] ! j) = genome (xs ! j)"
  proof (cases "i < length xs")
    case True
    then show ?thesis by (cases "j = i") simp_all
  next
    case False
    then show ?thesis by (simp add: list_update_beyond)
  qed
qed

lemma register_tag:
  "register gb c s = (gt, gb', c') \<Longrightarrow> genotype (d c') = name (objs gb' ! gt)"
  by (auto simp: register_def reg_key_def lookup_def Let_def next_name_def nth_update_pop
           split: option.splits prod.splits)

lemma register_old_name:
  "register gb c s = (gt, gb', c') \<Longrightarrow> r < length (objs gb) \<Longrightarrow>
     name (objs gb' ! r) = name (objs gb ! r) \<and> genome (objs gb' ! r) = genome (objs gb ! r)"
  by (auto simp: register_def reg_key_def lookup_def Let_def next_name_def nth_update_pop
                 nth_append
           split: option.splits prod.splits)

lemma gb_inv_init: "gb_inv GeneBank_init"
  by (simp add: gb_inv_def lookup_def GeneBank_init_def)

lemma register_gb_inv:
  assumes reg: "register gb c s = (gt, gb', c')" and inv: "gb_inv gb"
  shows "gb_inv gb'"
proof -
  let ?k = "reg_key c s"
  have self: "lookup gb' ?k = Some gt" by (rule register_lookup_self[OF reg])
  have other: "\<And>k. k \<noteq> ?k \<Longrightarrow> lookup gb' k = lookup gb k"
    by (rule register_lookup_other[OF reg])
  have old: "\<And>k r. lookup gb k = Some r \<Longrightarrow> r < length (objs gb)"
    using inv by (auto simp: gb_inv_def)
  have inj: "\<And>k k' r. lookup gb k = Some r \<Longrightarrow> lookup gb k' = Some r \<Longrightarrow> k = k'"
    using inv unfolding gb_inv_def by blast
  have len: "length (objs gb) \<le> length (objs gb')"
    using register_hit[OF reg] register_miss[OF reg] by (cases "lookup gb ?k") auto
  have gt_fresh: "lookup gb ?k = None \<Longrightarrow> gt = length (objs gb) \<and> gt < length (objs gb')"
    using register_miss[OF reg] by auto
  have gt_old: "\<And>r. lookup gb ?k = Some r \<Longrightarrow> gt = r"
    using register_hit[OF reg] by auto
  have bound: "\<And>k r. lookup gb' k = Some r \<Longrightarrow> r < length (objs gb')"
  proof -
    fix k r assume a: "lookup gb' k = Some r"
    show "r < length (objs gb')"
    proof (cases "k = ?k")
      case True
      with a self have r: "r = gt" by simp
      show ?thesis
      proof (cases "lookup gb ?k")
        case None
        with gt_fresh r show ?thesis by simp
      next
        case (Some r')
        with gt_old have "r' = gt" by simp
        with Some old[of ?k r'] len r show ?thesis by simp
      qed
    next
      case False
      with a other have "lookup gb k = Some r" by simp
      then have "r < length (objs gb)" by (rule old)
      with len show ?thesis by simp
    qed
  qed
  have key_of_gt: "\<And>k. lookup gb' k = Some gt \<Longrightarrow> k = ?k"
  proof -
    fix k assume a: "lookup gb' k = Some gt"
    show "k = ?k"
    proof (rule ccontr)
      assume ne: "k \<noteq> ?k"
      with a other have b: "lookup gb k = Some gt" by simp
      show False
      proof (cases "lookup gb ?k")
        case None
        with gt_fresh old[OF b] show False by simp
      next
        case (Some r)
        with gt_old have "lookup gb ?k = Some gt" by simp
        with inj[OF b] ne show False by simp
      qed
    qed
  qed
  have inj': "\<And>k k' r. lookup gb' k = Some r \<Longrightarrow> lookup gb' k' = Some r \<Longrightarrow> k = k'"
  proof -
    fix k k' r assume a: "lookup gb' k = Some r" and b: "lookup gb' k' = Some r"
    show "k = k'"
    proof (cases "r = gt")
      case True
      with a b have "k = ?k" "k' = ?k" by (simp_all add: key_of_gt)
      then show ?thesis by simp
    next
      case False
      with a b self have "k \<noteq> ?k" "k' \<noteq> ?k" by auto
      with a b other have "lookup gb k = Some r" "lookup gb k' = Some r" by simp_all
      then show ?thesis by (rule inj)
    qed
  qed
  show ?thesis unfolding gb_inv_def
  proof (intro conjI allI impI)
    fix k r assume "lookup gb' k = Some r"
    then show "r < length (objs gb')" by (rule bound)
  next
    fix k k' r assume "lookup gb' k = Some r \<and> lookup gb' k' = Some r"
    then show "k = k'" using inj' by blast
  qed
qed

lemma unregister_lookup: "lookup (unregister gb c) k = lookup gb k"
  by (simp add: unregister_def lookup_def split: option.splits)

lemma unregister_length: "length (objs (unregister gb c)) = length (objs gb)"
  by (simp add: unregister_def split: option.splits)

lemma unregister_gb_inv: "gb_inv gb \<Longrightarrow> gb_inv (unregister gb c)"
  by (simp add: gb_inv_def unregister_lookup unregister_length)


lemma gb_inv_bound: "gb_inv gb \<Longrightarrow> lookup gb k = Some r \<Longrightarrow> r < length (objs gb)"
  unfolding gb_inv_def by blast

lemma gb_inv_inj:
  "gb_inv gb \<Longrightarrow> lookup gb k = Some r \<Longrightarrow> lookup gb k' = Some r \<Longrightarrow> k = k'"
  unfolding gb_inv_def by blast

lemma alphabet_distinct: "distinct ''abcdefghijklmnopqrstuvwxyz''"
  by simp

lemma letter_inj:
  assumes "0 \<le> a" "a < 26" "0 \<le> b" "b < 26" "letter a = letter b"
  shows "a = b"
proof -
  have l: "length ''abcdefghijklmnopqrstuvwxyz'' = 26" by simp
  have "nat a < length ''abcdefghijklmnopqrstuvwxyz''" "nat b < length ''abcdefghijklmnopqrstuvwxyz''"
    using assms unfolding l by linarith+
  with alphabet_distinct assms(5) have "nat a = nat b"
    unfolding letter_def by (simp only: nth_eq_iff_index_eq)
  with assms show ?thesis by linarith
qed


lemma div26_bounds: "0 \<le> (x::int) \<Longrightarrow> x < 26 * m \<Longrightarrow> 0 \<le> x div 26 \<and> x div 26 < m"
  by (simp add: div_less_iff_less_mult mult.commute pos_imp_zdiv_nonneg_iff)

lemma int_to_label_inj:
  assumes "0 \<le> a" "a < 17576" "0 \<le> b" "b < 17576" "int_to_label a = int_to_label b"
  shows "a = b"
proof -
  have m: "\<And>x::int. 0 \<le> x mod 26 \<and> x mod 26 < 26" by simp
  from assms(5) have
    e1: "letter ((a div 26 div 26) mod 26) = letter ((b div 26 div 26) mod 26)" and
    e2: "letter ((a div 26) mod 26) = letter ((b div 26) mod 26)" and
    e3: "letter (a mod 26) = letter (b mod 26)"
    by (simp_all add: int_to_label_def)
  have q1: "(a div 26 div 26) mod 26 = (b div 26 div 26) mod 26"
    using letter_inj[OF _ _ _ _ e1] m by blast
  have q2: "(a div 26) mod 26 = (b div 26) mod 26"
    using letter_inj[OF _ _ _ _ e2] m by blast
  have q3: "a mod 26 = b mod 26"
    using letter_inj[OF _ _ _ _ e3] m by blast
  have a1: "0 \<le> a div 26 \<and> a div 26 < 676" using div26_bounds[of a 676] assms by simp
  have b1: "0 \<le> b div 26 \<and> b div 26 < 676" using div26_bounds[of b 676] assms by simp
  have a2: "0 \<le> a div 26 div 26 \<and> a div 26 div 26 < 26"
    using div26_bounds[of "a div 26" 26] a1 by simp
  have b2: "0 \<le> b div 26 div 26 \<and> b div 26 div 26 < 26"
    using div26_bounds[of "b div 26" 26] b1 by simp
  have q0: "a div 26 div 26 = b div 26 div 26" using q1 a2 b2 by simp
  have "a div 26 = a div 26 div 26 * 26 + a div 26 mod 26"
    by (rule div_mult_mod_eq[symmetric])
  also have "\<dots> = b div 26 div 26 * 26 + b div 26 mod 26"
    by (simp only: q0 q2)
  also have "\<dots> = b div 26" by (rule div_mult_mod_eq)
  finally have q: "a div 26 = b div 26" .
  have "a = a div 26 * 26 + a mod 26" by (rule div_mult_mod_eq[symmetric])
  also have "\<dots> = b div 26 * 26 + b mod 26" by (simp only: q q3)
  also have "\<dots> = b" by (rule div_mult_mod_eq)
  finally show ?thesis .
qed


lemma digit_cases: "k < 10 \<Longrightarrow> k = 0 \<or> k = 1 \<or> k = 2 \<or> k = 3 \<or> k = 4 \<or> k = 5 \<or> k = 6 \<or> k = 7 \<or> k = 8 \<or> k = (9::nat)"
  by arith

lemma digit_value_digit: "k < 10 \<Longrightarrow> digit_value (digit k) = k"
  using digit_cases[of k] by (auto simp: digit_value_def digit_def)

lemma digit_not_minus: "k < 10 \<Longrightarrow> digit k \<noteq> CHR ''-''"
  using digit_cases[of k] by (auto simp: digit_def)

lemma digits_value_snoc: "digits_value (cs @ [c]) = 10 * digits_value cs + digit_value c"
  by (simp add: digits_value_def)

lemma digits_value_decimal: "digits_value (decimal n) = n"
proof (induction n rule: decimal.induct)
  case (1 n)
  show ?case
  proof (cases "n < 10")
    case True
    then show ?thesis
      by (simp add: decimal.simps[of n] digits_value_def digit_value_digit)
  next
    case False
    with 1 have ih: "digits_value (decimal (n div 10)) = n div 10" by simp
    have "n mod 10 < 10" by simp
    then have dv: "digit_value (digit (n mod 10)) = n mod 10" by (rule digit_value_digit)
    have "digits_value (decimal n) = 10 * (n div 10) + n mod 10"
      using False by (simp add: decimal.simps[of n] digits_value_snoc ih dv)
    then show ?thesis by simp
  qed
qed

lemma digits_value_zeros: "digits_value (replicate k CHR ''0'' @ cs) = digits_value cs"
proof -
  have "foldl (\<lambda>a c. 10 * a + digit_value c) 0 (replicate k CHR ''0'') = 0"
    by (induction k) (simp_all add: digit_value_def)
  then show ?thesis by (simp add: digits_value_def)
qed

lemma decimal_not_minus: "c \<in> set (decimal n) \<Longrightarrow> c \<noteq> CHR ''-''"
proof (induction n rule: decimal.induct)
  case (1 n)
  show ?case
  proof (cases "n < 10")
    case True
    with 1(2) show ?thesis by (simp add: decimal.simps[of n] digit_not_minus)
  next
    case False
    have "n mod 10 < 10" by simp
    then have "digit (n mod 10) \<noteq> CHR ''-''" by (rule digit_not_minus)
    with 1 False show ?thesis by (auto simp: decimal.simps[of n])
  qed
qed

lemma decimal_nonempty: "decimal n \<noteq> []"
  by (simp add: decimal.simps[of n])

lemma fmt04_neg:
  "n < 0 \<Longrightarrow> fmt04 n =
     CHR ''-'' # replicate (3 - length (decimal (nat (- n)))) CHR ''0'' @ decimal (nat (- n))"
  by (simp add: fmt04_def)

lemma fmt04_pos:
  "\<not> n < 0 \<Longrightarrow> fmt04 n = replicate (4 - length (decimal (nat n))) CHR ''0'' @ decimal (nat n)"
  by (simp add: fmt04_def)

lemma fmt04_pos_hd: assumes "\<not> n < 0" shows "hd (fmt04 n) \<noteq> CHR ''-''"
proof -
  let ?s = "replicate (4 - length (decimal (nat n))) CHR ''0'' @ decimal (nat n)"
  have ne: "?s \<noteq> []" using decimal_nonempty[of "nat n"] by simp
  have "hd ?s \<in> set ?s" by (rule hd_in_set[OF ne])
  then have "hd ?s = CHR ''0'' \<or> hd ?s \<in> set (decimal (nat n))" by auto
  then have "hd ?s \<noteq> CHR ''-''" using decimal_not_minus[of "hd ?s" "nat n"] by auto
  then show ?thesis unfolding fmt04_pos[OF assms] .
qed

lemma fmt04_pos_value: assumes "\<not> n < 0" shows "digits_value (fmt04 n) = nat n"
  unfolding fmt04_pos[OF assms] by (simp only: digits_value_zeros digits_value_decimal)

lemma fmt04_neg_value: assumes "n < 0" shows "digits_value (tl (fmt04 n)) = nat (- n)"
  unfolding fmt04_neg[OF assms] by (simp only: list.sel digits_value_zeros digits_value_decimal)

lemma fmt04_neg_hd: "n < 0 \<Longrightarrow> hd (fmt04 n) = CHR ''-''"
  by (simp add: fmt04_neg)

lemma fmt04_inj: assumes eq: "fmt04 a = fmt04 b" shows "a = b"
proof (cases "a < 0")
  case True
  show ?thesis
  proof (cases "b < 0")
    case b: True
    have "nat (- a) = nat (- b)"
      using fmt04_neg_value[OF True] fmt04_neg_value[OF b] by (simp only: eq)
    with True b show ?thesis by linarith
  next
    case b: False
    have "hd (fmt04 a) = hd (fmt04 b)" by (simp only: eq)
    with fmt04_neg_hd[OF True] fmt04_pos_hd[OF b] show ?thesis by simp
  qed
next
  case False
  show ?thesis
  proof (cases "b < 0")
    case b: True
    have "hd (fmt04 a) = hd (fmt04 b)" by (simp only: eq)
    with fmt04_neg_hd[OF b] fmt04_pos_hd[OF False] show ?thesis by simp
  next
    case b: False
    have "nat a = nat b"
      using fmt04_pos_value[OF False] fmt04_pos_value[OF b] by (simp only: eq)
    with False b show ?thesis by linarith
  qed
qed

lemma name_inj:
  assumes "fmt04 n @ int_to_label i = fmt04 m @ int_to_label j"
    and "0 \<le> i" "i < 17576" "0 \<le> j" "j < 17576"
  shows "n = m \<and> i = j"
proof -
  have "length (int_to_label i) = length (int_to_label j)" by (simp add: int_to_label_def)
  with assms(1) have "fmt04 n = fmt04 m" "int_to_label i = int_to_label j" by simp_all
  then show ?thesis using fmt04_inj int_to_label_inj assms(2-5) by blast
qed


lemma register_label_hit:
  "register gb c s = (gt, gb', c') \<Longrightarrow> lookup gb (reg_key c s) = Some r \<Longrightarrow>
     label_count gb' m = label_count gb m"
  by (auto simp: register_def reg_key_def lookup_def label_count_def Let_def next_name_def
           split: option.splits prod.splits if_splits)

lemma register_label_miss:
  "register gb c s = (gt, gb', c') \<Longrightarrow> lookup gb (reg_key c s) = None \<Longrightarrow>
     label_count gb' m =
       (if m = size_r (mm c) then label_count gb m + 1 else label_count gb m)"
  by (auto simp: register_def reg_key_def lookup_def label_count_def Let_def next_name_def
           split: option.splits prod.splits)

lemma register_fresh:
  "register gb c s = (gt, gb', c') \<Longrightarrow> lookup gb (reg_key c s) = None \<Longrightarrow>
     objs gb' = objs gb @
       [\<lparr>name = fmt04 (size_r (mm c)) @ int_to_label (label_count gb (size_r (mm c))),
         genome = read_block s (pos_r (mm c)) (size_r (mm c)),
         population = 1, origin_time = 0, max_pop = 1, parent = parent_genotype (d c)\<rparr>]"
  by (auto simp: register_def reg_key_def lookup_def label_count_def Let_def next_name_def
           split: option.splits prod.splits)

lemma register_hit_objs:
  "register gb c s = (gt, gb', c') \<Longrightarrow> lookup gb (reg_key c s) = Some r \<Longrightarrow>
     objs gb' = (objs gb)[r := (objs gb ! r)
        \<lparr>population := population (objs gb ! r) + 1,
         max_pop := max (max_pop (objs gb ! r)) (population (objs gb ! r) + 1)\<rparr>]"
  by (auto simp: register_def reg_key_def lookup_def label_count_def Let_def next_name_def
           split: option.splits prod.splits)

lemma gb_names_nonneg: "gb_names gb \<Longrightarrow> 0 \<le> label_count gb n"
  unfolding gb_names_def by blast

lemma gb_names_label:
  "gb_names gb \<Longrightarrow> lookup gb k = Some r \<Longrightarrow>
     \<exists>i. 0 \<le> i \<and> i < label_count gb (fst k) \<and>
         name (objs gb ! r) = fmt04 (fst k) @ int_to_label i"
  unfolding gb_names_def by blast

lemma gb_names_dist:
  "gb_names gb \<Longrightarrow> lookup gb k = Some r \<Longrightarrow> lookup gb k' = Some r' \<Longrightarrow>
     name (objs gb ! r) = name (objs gb ! r') \<Longrightarrow> k = k'"
  unfolding gb_names_def by blast

lemma gb_hashes_init: "gb_hashes GeneBank_init"
  by (simp add: gb_hashes_def lookup_def GeneBank_init_def)

lemma gb_names_init: "gb_names GeneBank_init"
  by (simp add: gb_names_def lookup_def label_count_def GeneBank_init_def)

lemma reg_key_fst: "fst (reg_key c s) = size_r (mm c)"
  by (simp add: reg_key_def)

lemma reg_key_snd: "snd (reg_key c s) = genome_hash (read_block s (pos_r (mm c)) (size_r (mm c)))"
  by (simp add: reg_key_def)

lemma register_label_mono:
  assumes "register gb c s = (gt, gb', c')"
  shows "label_count gb m \<le> label_count gb' m"
proof (cases "lookup gb (reg_key c s)")
  case None
  from register_label_miss[OF assms None, of m] show ?thesis by simp
next
  case (Some r)
  from register_label_hit[OF assms Some, of m] show ?thesis by simp
qed

text \<open>What one registration does to the genotype records.\<close>

lemma register_objs_hit:
  assumes reg: "register gb c s = (gt, gb', c')" and inv: "gb_inv gb"
    and hit: "lookup gb (reg_key c s) = Some r"
  shows "gt = r" and "r < length (objs gb)" and "length (objs gb') = length (objs gb)"
    and "population (objs gb' ! r) = population (objs gb ! r) + 1"
    and "\<And>q. q \<noteq> r \<Longrightarrow> objs gb' ! q = objs gb ! q"
    and "name (objs gb' ! r) = name (objs gb ! r)"
    and "genome (objs gb' ! r) = genome (objs gb ! r)"
proof -
  show r: "r < length (objs gb)" by (rule gb_inv_bound[OF inv hit])
  show "gt = r" using register_hit[OF reg hit] by simp
  note o = register_hit_objs[OF reg hit]
  show "length (objs gb') = length (objs gb)" unfolding o by simp
  show "population (objs gb' ! r) = population (objs gb ! r) + 1" unfolding o using r by simp
  show "\<And>q. q \<noteq> r \<Longrightarrow> objs gb' ! q = objs gb ! q" unfolding o by simp
  show "name (objs gb' ! r) = name (objs gb ! r)" unfolding o using r by simp
  show "genome (objs gb' ! r) = genome (objs gb ! r)" unfolding o using r by simp
qed

lemma register_objs_miss:
  assumes reg: "register gb c s = (gt, gb', c')"
    and miss: "lookup gb (reg_key c s) = None"
  shows "gt = length (objs gb)"
    and "population (objs gb' ! gt) = 1"
    and "genome (objs gb' ! gt) = read_block s (pos_r (mm c)) (size_r (mm c))"
    and "name (objs gb' ! gt) =
           fmt04 (size_r (mm c)) @ int_to_label (label_count gb (size_r (mm c)))"
    and "\<And>q. q < length (objs gb) \<Longrightarrow> objs gb' ! q = objs gb ! q"
proof -
  show g: "gt = length (objs gb)" using register_miss[OF reg miss] by simp
  note o = register_fresh[OF reg miss]
  show "population (objs gb' ! gt) = 1" unfolding o g by simp
  show "genome (objs gb' ! gt) = read_block s (pos_r (mm c)) (size_r (mm c))"
    unfolding o g by simp
  show "name (objs gb' ! gt) =
           fmt04 (size_r (mm c)) @ int_to_label (label_count gb (size_r (mm c)))"
    unfolding o g by simp
  show "\<And>q. q < length (objs gb) \<Longrightarrow> objs gb' ! q = objs gb ! q"
    unfolding o by (simp add: nth_append)
qed

lemma register_lookup_cases:
  assumes reg: "register gb c s = (gt, gb', c')" and "lookup gb' k = Some r"
  shows "(k = reg_key c s \<and> r = gt) \<or> (k \<noteq> reg_key c s \<and> lookup gb k = Some r)"
  using assms register_lookup_self[OF reg] register_lookup_other[OF reg, of k]
  by (cases "k = reg_key c s") auto

lemma register_gb_hashes:
  assumes reg: "register gb c s = (gt, gb', c')" and inv: "gb_inv gb" and hs: "gb_hashes gb"
  shows "gb_hashes gb'"
  unfolding gb_hashes_def
proof (intro allI impI)
  fix k r assume a: "lookup gb' k = Some r"
  have old: "\<And>k r. lookup gb k = Some r \<Longrightarrow> genome_hash (genome (objs gb ! r)) = snd k"
    using hs unfolding gb_hashes_def by blast
  from register_lookup_cases[OF reg a]
  show "genome_hash (genome (objs gb' ! r)) = snd k"
  proof
    assume k: "k = reg_key c s \<and> r = gt"
    show ?thesis
    proof (cases "lookup gb (reg_key c s)")
      case None
      from register_objs_miss(3)[OF reg None] k show ?thesis by (simp add: reg_key_snd)
    next
      case (Some r0)
      from register_objs_hit(1,7)[OF reg inv Some] old[OF Some] k show ?thesis by simp
    qed
  next
    assume k: "k \<noteq> reg_key c s \<and> lookup gb k = Some r"
    then have r: "r < length (objs gb)" using gb_inv_bound[OF inv] by blast
    from register_old_name[OF reg r] old[of k r] k show ?thesis by simp
  qed
qed

lemma register_gb_names:
  assumes reg: "register gb c s = (gt, gb', c')" and inv: "gb_inv gb" and nm: "gb_names gb"
    and fit: "label_count gb' (size_r (mm c)) \<le> 17576"
  shows "gb_names gb'"
proof -
  let ?k = "reg_key c s"
  let ?n = "size_r (mm c)"
  have nonneg': "\<And>m. 0 \<le> label_count gb' m"
    using gb_names_nonneg[OF nm] register_label_mono[OF reg] by (meson order_trans)
  have new_name: "lookup gb ?k = None \<Longrightarrow>
      name (objs gb' ! gt) = fmt04 ?n @ int_to_label (label_count gb ?n) \<and>
      label_count gb ?n < 17576 \<and> label_count gb' ?n = label_count gb ?n + 1"
    using register_objs_miss(4)[OF reg] register_label_miss[OF reg, of ?n] fit by simp
  have old_obj: "\<And>k r. k \<noteq> ?k \<Longrightarrow> lookup gb k = Some r \<Longrightarrow>
      name (objs gb' ! r) = name (objs gb ! r)"
    using register_old_name[OF reg] gb_inv_bound[OF inv] by blast
  have hit_obj: "\<And>r0. lookup gb ?k = Some r0 \<Longrightarrow>
      gt = r0 \<and> name (objs gb' ! gt) = name (objs gb ! r0)"
    using register_objs_hit(1,6)[OF reg inv] by simp
  have label': "\<exists>i. 0 \<le> i \<and> i < label_count gb' (fst k) \<and>
              name (objs gb' ! r) = fmt04 (fst k) @ int_to_label i"
    if a: "lookup gb' k = Some r" for k r
    using register_lookup_cases[OF reg a]
  proof
    assume k: "k = ?k \<and> r = gt"
    show ?thesis
    proof (cases "lookup gb ?k")
      case None
      from new_name[OF None] gb_names_nonneg[OF nm, of ?n] k show ?thesis
        by (intro exI[of _ "label_count gb ?n"]) (simp add: reg_key_fst)
    next
      case (Some r0)
      from gb_names_label[OF nm Some] obtain i where
        i: "0 \<le> i" "i < label_count gb (fst ?k)"
           "name (objs gb ! r0) = fmt04 (fst ?k) @ int_to_label i" by blast
      from i(2) register_label_mono[OF reg, of "fst ?k"]
      have "i < label_count gb' (fst ?k)" by linarith
      with i(1,3) hit_obj[OF Some] k show ?thesis by (intro exI[of _ i]) auto
    qed
  next
    assume k: "k \<noteq> ?k \<and> lookup gb k = Some r"
    then have look: "lookup gb k = Some r" by simp
    from gb_names_label[OF nm look] obtain i where
      i: "0 \<le> i" "i < label_count gb (fst k)"
         "name (objs gb ! r) = fmt04 (fst k) @ int_to_label i" by blast
    from i(2) register_label_mono[OF reg, of "fst k"]
    have "i < label_count gb' (fst k)" by linarith
    with i(1,3) old_obj[OF _ look] k show ?thesis by (intro exI[of _ i]) simp
  qed
  have fresh: "name (objs gb' ! gt) \<noteq> name (objs gb ! r)"
    if miss: "lookup gb ?k = None" and look: "lookup gb k = Some r" for k r
  proof
    assume eq: "name (objs gb' ! gt) = name (objs gb ! r)"
    from gb_names_label[OF nm look] obtain i where
      i: "0 \<le> i" "i < label_count gb (fst k)"
         "name (objs gb ! r) = fmt04 (fst k) @ int_to_label i" by blast
    from new_name[OF miss] eq i(3)
    have e: "fmt04 ?n @ int_to_label (label_count gb ?n) = fmt04 (fst k) @ int_to_label i"
      by simp
    have "length (int_to_label (label_count gb ?n)) = length (int_to_label i)"
      by (simp add: int_to_label_def)
    with e have f: "fmt04 ?n = fmt04 (fst k)"
      and l: "int_to_label (label_count gb ?n) = int_to_label i" by simp_all
    from fmt04_inj[OF f] have cls: "fst k = ?n" by simp
    with i(2) new_name[OF miss] have b: "i < 17576" by simp
    from int_to_label_inj[OF gb_names_nonneg[OF nm, of ?n] _ i(1) b l] new_name[OF miss]
    have "label_count gb ?n = i" by simp
    with i(2) cls show False by simp
  qed
  have dist': "k = k'"
    if a: "lookup gb' k = Some r" and b: "lookup gb' k' = Some r'"
      and e: "name (objs gb' ! r) = name (objs gb' ! r')" for k k' r r'
  proof (cases "k = ?k")
    case True
    show ?thesis
    proof (cases "k' = ?k")
      case k': True
      with True show ?thesis by simp
    next
      case k': False
      with register_lookup_cases[OF reg b] have lb: "lookup gb k' = Some r'" by simp
      from register_lookup_cases[OF reg a] True have r: "r = gt" by simp
      show ?thesis
      proof (cases "lookup gb ?k")
        case None
        from fresh[OF None lb] e r old_obj[OF k' lb] show ?thesis by simp
      next
        case (Some r0)
        from hit_obj[OF Some] e r old_obj[OF k' lb]
        have "name (objs gb ! r0) = name (objs gb ! r')" by auto
        from gb_names_dist[OF nm Some lb this] True show ?thesis by simp
      qed
    qed
  next
    case False
    with register_lookup_cases[OF reg a] have la: "lookup gb k = Some r" by simp
    show ?thesis
    proof (cases "k' = ?k")
      case k': True
      from register_lookup_cases[OF reg b] k' have r': "r' = gt" by simp
      show ?thesis
      proof (cases "lookup gb ?k")
        case None
        from fresh[OF None la] e r' old_obj[OF False la] show ?thesis by simp
      next
        case (Some r0)
        from hit_obj[OF Some] e r' old_obj[OF False la]
        have "name (objs gb ! r) = name (objs gb ! r0)" by auto
        from gb_names_dist[OF nm la Some this] k' show ?thesis by simp
      qed
    next
      case k': False
      with register_lookup_cases[OF reg b] have lb: "lookup gb k' = Some r'" by simp
      from e old_obj[OF False la] old_obj[OF k' lb]
      have "name (objs gb ! r) = name (objs gb ! r')" by simp
      from gb_names_dist[OF nm la lb this] show ?thesis .
    qed
  qed
  show ?thesis
    unfolding gb_names_def using nonneg' label' dist' by blast
qed

text \<open>\<open>unregister\<close> changes a population only, so it keeps all three invariants.\<close>

lemma unregister_obj:
  "name (objs (unregister gb c) ! r) = name (objs gb ! r)"
  "genome (objs (unregister gb c) ! r) = genome (objs gb ! r)"
proof -
  have upd: "\<And>q p (xs :: genotype_obj list).
      name (xs[q := (xs ! q)\<lparr>population := p\<rparr>] ! r) = name (xs ! r) \<and>
      genome (xs[q := (xs ! q)\<lparr>population := p\<rparr>] ! r) = genome (xs ! r)"
  proof -
    fix q p and xs :: "genotype_obj list"
    show "name (xs[q := (xs ! q)\<lparr>population := p\<rparr>] ! r) = name (xs ! r) \<and>
      genome (xs[q := (xs ! q)\<lparr>population := p\<rparr>] ! r) = genome (xs ! r)"
    proof (cases "q < length xs")
      case True
      then show ?thesis by (cases "r = q") simp_all
    next
      case False
      then show ?thesis by (simp add: list_update_beyond)
    qed
  qed
  show "name (objs (unregister gb c) ! r) = name (objs gb ! r)"
    using upd by (simp add: unregister_def split: option.splits)
  show "genome (objs (unregister gb c) ! r) = genome (objs gb ! r)"
    using upd by (simp add: unregister_def split: option.splits)
qed

lemma unregister_label_count: "label_count (unregister gb c) n = label_count gb n"
  by (simp add: unregister_def label_count_def split: option.splits)

lemma unregister_gb_hashes: "gb_hashes gb \<Longrightarrow> gb_hashes (unregister gb c)"
  by (simp add: gb_hashes_def unregister_lookup unregister_obj)

lemma unregister_gb_names: "gb_names gb \<Longrightarrow> gb_names (unregister gb c)"
  by (simp add: gb_names_def unregister_lookup unregister_obj unregister_label_count)

lemma seq_Cons:
  assumes "register gb c s = (gt, gb', c')"
  shows "assigned gb ((c, s) # xs) 0 = gt"
    and "tagged gb ((c, s) # xs) 0 = genotype (d c')"
    and "assigned gb ((c, s) # xs) (Suc j) = assigned gb' xs j"
    and "tagged gb ((c, s) # xs) (Suc j) = tagged gb' xs j"
  using assms by (simp_all add: assigned_def tagged_def split: prod.splits)

lemma bank_before_0: "bank_before gb xs 0 = gb"
  by (simp add: bank_before_def)

lemma bank_before_Cons:
  "register gb c s = (gt, gb', c') \<Longrightarrow>
     bank_before gb ((c, s) # xs) (Suc j) = bank_before gb' xs j"
  by (simp add: bank_before_def split: prod.splits)

lemma bank_before_all: "bank_before gb xs (length xs) = snd (register_seq gb xs)"
  by (simp add: bank_before_def)

text \<open>The \<open>j\<close>-th call of the sequence, on the genebank the calls before it have left.\<close>

lemma seq_step:
  "j < length xs \<Longrightarrow>
     \<exists>c'. register (bank_before gb xs j) (fst (xs ! j)) (snd (xs ! j))
            = (assigned gb xs j, bank_before gb xs (Suc j), c') \<and>
          tagged gb xs j = genotype (d c')"
proof (induction xs arbitrary: gb j)
  case Nil
  then show ?case by simp
next
  case (Cons x xs)
  obtain c s where x: "x = (c, s)" by (cases x)
  obtain gt gb' c' where reg: "register gb c s = (gt, gb', c')" by (cases "register gb c s")
  show ?case
  proof (cases j)
    case 0
    have "bank_before gb (x # xs) (Suc 0) = gb'"
      using bank_before_Cons[OF reg, of xs 0] x by (simp add: bank_before_0)
    with reg seq_Cons(1,2)[OF reg, of xs] x 0 show ?thesis
      by (simp add: bank_before_0)
  next
    case (Suc j')
    with Cons.prems have j': "j' < length xs" by simp
    from Cons.IH[OF j', of gb'] obtain c'' where
      "register (bank_before gb' xs j') (fst (xs ! j')) (snd (xs ! j'))
            = (assigned gb' xs j', bank_before gb' xs (Suc j'), c'')"
      "tagged gb' xs j' = genotype (d c'')" by blast
    with seq_Cons(3,4)[OF reg, of xs j'] bank_before_Cons[OF reg, of xs] x Suc
    show ?thesis by simp
  qed
qed

lemma bank_gb_inv: "gb_inv gb \<Longrightarrow> j \<le> length xs \<Longrightarrow> gb_inv (bank_before gb xs j)"
proof (induction j)
  case 0
  then show ?case by (simp add: bank_before_0)
next
  case (Suc j)
  then have j: "j < length xs" by simp
  from seq_step[OF j, of gb] obtain c' where
    reg: "register (bank_before gb xs j) (fst (xs ! j)) (snd (xs ! j))
            = (assigned gb xs j, bank_before gb xs (Suc j), c')" by blast
  from Suc have "gb_inv (bank_before gb xs j)" by simp
  from register_gb_inv[OF reg this] show ?case .
qed

lemma bank_gb_hashes:
  "gb_inv gb \<Longrightarrow> gb_hashes gb \<Longrightarrow> j \<le> length xs \<Longrightarrow> gb_hashes (bank_before gb xs j)"
proof (induction j)
  case 0
  then show ?case by (simp add: bank_before_0)
next
  case (Suc j)
  then have j: "j < length xs" by simp
  from seq_step[OF j, of gb] obtain c' where
    reg: "register (bank_before gb xs j) (fst (xs ! j)) (snd (xs ! j))
            = (assigned gb xs j, bank_before gb xs (Suc j), c')" by blast
  have "gb_inv (bank_before gb xs j)" using bank_gb_inv[OF Suc.prems(1)] j by simp
  moreover from Suc have "gb_hashes (bank_before gb xs j)" by simp
  ultimately show ?case using register_gb_hashes[OF reg] by blast
qed

lemma bank_label_mono:
  "j \<le> m \<Longrightarrow> m \<le> length xs \<Longrightarrow>
     label_count (bank_before gb xs j) n \<le> label_count (bank_before gb xs m) n"
proof (induction m)
  case 0
  then show ?case by simp
next
  case (Suc m)
  show ?case
  proof (cases "j = Suc m")
    case True
    then show ?thesis by simp
  next
    case False
    with Suc.prems have jm: "j \<le> m" and m: "m < length xs" by simp_all
    from seq_step[OF m, of gb] obtain c' where
      reg: "register (bank_before gb xs m) (fst (xs ! m)) (snd (xs ! m))
            = (assigned gb xs m, bank_before gb xs (Suc m), c')" by blast
    from Suc.IH[OF jm] m register_label_mono[OF reg, of n] show ?thesis by simp
  qed
qed

lemma bank_gb_names:
  assumes "gb_inv gb" and "gb_names gb"
    and fit: "\<forall>n. label_count (snd (register_seq gb xs)) n \<le> 17576"
  shows "j \<le> length xs \<Longrightarrow> gb_names (bank_before gb xs j)"
proof (induction j)
  case 0
  with assms show ?case by (simp add: bank_before_0)
next
  case (Suc j)
  then have j: "j < length xs" by simp
  from seq_step[OF j, of gb] obtain c' where
    reg: "register (bank_before gb xs j) (fst (xs ! j)) (snd (xs ! j))
            = (assigned gb xs j, bank_before gb xs (Suc j), c')" by blast
  have inv: "gb_inv (bank_before gb xs j)" using bank_gb_inv[OF assms(1)] j by simp
  from Suc have nm: "gb_names (bank_before gb xs j)" by simp
  have "label_count (bank_before gb xs (Suc j)) (size_r (mm (fst (xs ! j))))
          \<le> label_count (bank_before gb xs (length xs)) (size_r (mm (fst (xs ! j))))"
    using bank_label_mono[of "Suc j" "length xs" xs gb] j by simp
  also have "\<dots> \<le> 17576" using fit by (simp add: bank_before_all)
  finally show ?case using register_gb_names[OF reg inv nm] by blast
qed

text \<open>Once a key is stored it keeps its genotype, and a genotype keeps its name.\<close>

lemma bank_stable:
  assumes inv: "gb_inv gb" and look: "lookup (bank_before gb xs j) k = Some r"
  shows "j \<le> m \<Longrightarrow> m \<le> length xs \<Longrightarrow>
           lookup (bank_before gb xs m) k = Some r \<and>
           name (objs (bank_before gb xs m) ! r) = name (objs (bank_before gb xs j) ! r)"
proof (induction m)
  case 0
  with look show ?case by simp
next
  case (Suc m)
  show ?case
  proof (cases "j = Suc m")
    case True
    with look show ?thesis by simp
  next
    case False
    with Suc.prems have jm: "j \<le> m" and m: "m < length xs" by simp_all
    from seq_step[OF m, of gb] obtain c' where
      reg: "register (bank_before gb xs m) (fst (xs ! m)) (snd (xs ! m))
            = (assigned gb xs m, bank_before gb xs (Suc m), c')" by blast
    from Suc.IH[OF jm] m have
      lm: "lookup (bank_before gb xs m) k = Some r" and
      nm: "name (objs (bank_before gb xs m) ! r) = name (objs (bank_before gb xs j) ! r)"
      by simp_all
    have invm: "gb_inv (bank_before gb xs m)" using bank_gb_inv[OF inv] m by simp
    have r: "r < length (objs (bank_before gb xs m))" by (rule gb_inv_bound[OF invm lm])
    have "lookup (bank_before gb xs (Suc m)) k = Some r"
    proof (cases "k = reg_key (fst (xs ! m)) (snd (xs ! m))")
      case True
      with register_hit[OF reg] lm have "assigned gb xs m = r" by simp
      with register_lookup_self[OF reg] True show ?thesis by simp
    next
      case False
      with register_lookup_other[OF reg] lm show ?thesis by simp
    qed
    with register_old_name[OF reg r] nm show ?thesis by simp
  qed
qed

text \<open>
  C6, as the code has it. Let creatures be registered one after the other into a
  genebank that \<open>register\<close> and \<open>unregister\<close> have built (the empty one included), and let
  \<open>i < j\<close> be two of them. They are assigned the same genotype exactly when their mothers
  have the same size and the same \<open>_genome_hash\<close> value, and then they carry the same
  name; as long as no size class has handed out more than \<open>26 ^ 3 = 17576\<close> labels, they
  carry the same name only then, so creatures that differ in size or hash get distinct
  names. The \<open>j\<close>-th registration tags the creature with the name of its genotype, whose
  stored genome has the creature's hash; it raises by one the population of the genotype
  stored under the creature's size and hash, which is the hash of that genotype's stored
  genome, and leaves the population of every genotype stored under another key as it
  was; when no genotype is stored under its key, it mints one with population 1 and
  the mother bytes as genome. The mother bytes themselves are never compared.
\<close>

theorem register_by_size_and_hash:
  assumes "gb_inv gb" and "gb_hashes gb" and "i < j" and "j < length xs"
  shows "(assigned gb xs i = assigned gb xs j) = (key_at xs i = key_at xs j) \<and>
         (key_at xs i = key_at xs j \<longrightarrow> tagged gb xs i = tagged gb xs j) \<and>
         (gb_names gb \<and> (\<forall>n. label_count (snd (register_seq gb xs)) n \<le> 17576) \<longrightarrow>
            (tagged gb xs i = tagged gb xs j) = (key_at xs i = key_at xs j)) \<and>
         tagged gb xs j = name (objs (bank_before gb xs (Suc j)) ! assigned gb xs j) \<and>
         genome_hash (genome (objs (bank_before gb xs (Suc j)) ! assigned gb xs j))
           = snd (key_at xs j) \<and>
         (\<forall>k r. lookup (bank_before gb xs j) k = Some r \<longrightarrow>
            genome_hash (genome (objs (bank_before gb xs j) ! r)) = snd k \<and>
            population (objs (bank_before gb xs (Suc j)) ! r) =
              population (objs (bank_before gb xs j) ! r) + (if k = key_at xs j then 1 else 0)) \<and>
         (lookup (bank_before gb xs j) (key_at xs j) = None \<longrightarrow>
            population (objs (bank_before gb xs (Suc j)) ! assigned gb xs j) = 1 \<and>
            genome (objs (bank_before gb xs (Suc j)) ! assigned gb xs j) =
              read_block (snd (xs ! j)) (pos_r (mm (fst (xs ! j)))) (size_r (mm (fst (xs ! j)))))"
proof -
  let ?B = "bank_before gb xs"
  let ?ai = "assigned gb xs i" and ?aj = "assigned gb xs j"
  let ?ki = "key_at xs i" and ?kj = "key_at xs j"
  have i: "i < length xs" and sij: "Suc i \<le> j" and sj: "Suc j \<le> length xs"
    using assms(3,4) by simp_all
  have ki: "?ki = reg_key (fst (xs ! i)) (snd (xs ! i))"
    and kj: "?kj = reg_key (fst (xs ! j)) (snd (xs ! j))" by (simp_all add: key_at_def)
  from seq_step[OF i, of gb] obtain ci where
    regi: "register (?B i) (fst (xs ! i)) (snd (xs ! i)) = (?ai, ?B (Suc i), ci)"
    and tagi: "tagged gb xs i = genotype (d ci)" by blast
  from seq_step[OF assms(4), of gb] obtain cj where
    regj: "register (?B j) (fst (xs ! j)) (snd (xs ! j)) = (?aj, ?B (Suc j), cj)"
    and tagj: "tagged gb xs j = genotype (d cj)" by blast
  have invj: "gb_inv (?B j)" using bank_gb_inv[OF assms(1)] assms(4) by simp
  have invj': "gb_inv (?B (Suc j))" using bank_gb_inv[OF assms(1) sj] .
  have hsj: "gb_hashes (?B j)" using bank_gb_hashes[OF assms(1,2)] assms(4) by simp
  have hsj': "gb_hashes (?B (Suc j))" using bank_gb_hashes[OF assms(1,2) sj] .
  have li: "lookup (?B (Suc i)) ?ki = Some ?ai"
    using register_lookup_self[OF regi] by (simp add: ki)
  have lj': "lookup (?B (Suc j)) ?kj = Some ?aj"
    using register_lookup_self[OF regj] by (simp add: kj)
  have lij: "lookup (?B j) ?ki = Some ?ai"
    using bank_stable[OF assms(1) li sij] assms(4) by simp
  have lij': "lookup (?B (Suc j)) ?ki = Some ?ai"
    and nij': "name (objs (?B (Suc j)) ! ?ai) = name (objs (?B (Suc i)) ! ?ai)"
    using bank_stable[OF assms(1) li, of "Suc j"] sij sj by simp_all
  have ni: "tagged gb xs i = name (objs (?B (Suc j)) ! ?ai)"
    using register_tag[OF regi] tagi nij' by simp
  have nj: "tagged gb xs j = name (objs (?B (Suc j)) ! ?aj)"
    using register_tag[OF regj] tagj by simp
  have A: "(?ai = ?aj) = (?ki = ?kj)"
  proof
    assume "?ai = ?aj"
    with lij' lj' show "?ki = ?kj" using gb_inv_inj[OF invj'] by metis
  next
    assume e: "?ki = ?kj"
    with lij have "lookup (?B j) (reg_key (fst (xs ! j)) (snd (xs ! j))) = Some ?ai"
      by (simp add: kj)
    from register_hit[OF regj this] show "?ai = ?aj" by simp
  qed
  have B: "?ki = ?kj \<longrightarrow> tagged gb xs i = tagged gb xs j"
    using A ni nj by auto
  have C: "gb_names gb \<and> (\<forall>n. label_count (snd (register_seq gb xs)) n \<le> 17576) \<longrightarrow>
            (tagged gb xs i = tagged gb xs j) = (?ki = ?kj)"
  proof
    assume h: "gb_names gb \<and> (\<forall>n. label_count (snd (register_seq gb xs)) n \<le> 17576)"
    then have nm: "gb_names (?B (Suc j))" using bank_gb_names[OF assms(1) _ _ sj] by blast
    show "(tagged gb xs i = tagged gb xs j) = (?ki = ?kj)"
    proof
      assume "tagged gb xs i = tagged gb xs j"
      with ni nj have "name (objs (?B (Suc j)) ! ?ai) = name (objs (?B (Suc j)) ! ?aj)" by simp
      from gb_names_dist[OF nm lij' lj' this] show "?ki = ?kj" .
    next
      assume "?ki = ?kj"
      with B show "tagged gb xs i = tagged gb xs j" by simp
    qed
  qed
  have D: "genome_hash (genome (objs (?B (Suc j)) ! ?aj)) = snd ?kj"
    using hsj' lj' unfolding gb_hashes_def by blast
  have E: "\<forall>k r. lookup (?B j) k = Some r \<longrightarrow>
            genome_hash (genome (objs (?B j) ! r)) = snd k \<and>
            population (objs (?B (Suc j)) ! r) =
              population (objs (?B j) ! r) + (if k = ?kj then 1 else 0)"
  proof (intro allI impI)
    fix k r assume l: "lookup (?B j) k = Some r"
    have h: "genome_hash (genome (objs (?B j) ! r)) = snd k"
      using hsj l unfolding gb_hashes_def by blast
    have r: "r < length (objs (?B j))" by (rule gb_inv_bound[OF invj l])
    have "population (objs (?B (Suc j)) ! r) =
              population (objs (?B j) ! r) + (if k = ?kj then 1 else 0)"
    proof (cases "lookup (?B j) (reg_key (fst (xs ! j)) (snd (xs ! j)))")
      case None
      with l have "k \<noteq> ?kj" by (auto simp: kj)
      with register_objs_miss(5)[OF regj None r] show ?thesis by simp
    next
      case (Some r0)
      note hit = register_objs_hit[OF regj invj Some]
      show ?thesis
      proof (cases "k = ?kj")
        case True
        with l Some have "r = r0" by (simp add: kj)
        with hit(4) True show ?thesis by simp
      next
        case False
        have "r \<noteq> r0"
        proof
          assume "r = r0"
          with gb_inv_inj[OF invj l] Some have "k = ?kj" by (simp add: kj)
          with False show False by simp
        qed
        with hit(5)[of r] False show ?thesis by simp
      qed
    qed
    with h show "genome_hash (genome (objs (?B j) ! r)) = snd k \<and>
            population (objs (?B (Suc j)) ! r) =
              population (objs (?B j) ! r) + (if k = ?kj then 1 else 0)" by simp
  qed
  have F: "lookup (?B j) ?kj = None \<longrightarrow>
            population (objs (?B (Suc j)) ! ?aj) = 1 \<and>
            genome (objs (?B (Suc j)) ! ?aj) =
              read_block (snd (xs ! j)) (pos_r (mm (fst (xs ! j)))) (size_r (mm (fst (xs ! j))))"
    using register_objs_miss(2,3)[OF regj] by (simp add: kj)
  from A B C nj D E F show ?thesis by blast
qed

lemma rb3: "read_block collision_soup 24 12 = [0, 0, 0, 0, 0, 0, 0, 0, 0, 0, 0, 0]"
  by (simp add: read_block_def collision_soup_def py_slice_def slice_bound_def eval_nat_numeral)

lemma h3: "genome_hash [0, 0, 0, 0, 0, 0, 0, 0, 0, 0, 0, 0] = 12"
  by (simp add: genome_hash_def)

lemma nm2: "fmt04 12 @ int_to_label 1 = ''0012aab''"
  by (simp add: fmt04_def int_to_label_def letter_def decimal.simps digit_def numeral_2_eq_2)

lemma label_wraps: "int_to_label 17576 = ''aaa''" "int_to_label 0 = ''aaa''"
  by (simp_all add: int_to_label_def letter_def)

lemma reg_a: "register GeneBank_init (Cell_init 0 12) collision_soup =
   (0, bank1, (Cell_init 0 12)\<lparr>d := Demographics_init\<lparr>genotype := ''0012aaa''\<rparr>\<rparr>)"
  by (simp add: register_def rb1 h1 GeneBank_init_def Cell_init_def next_name_def nm
        Demographics_init_def bank1_def)

lemma reg_b: "register bank1 (Cell_init 12 12) collision_soup =
   (0, bank2, (Cell_init 12 12)\<lparr>d := Demographics_init\<lparr>genotype := ''0012aaa''\<rparr>\<rparr>)"
  by (simp add: register_def rb2 h2 Cell_init_def Demographics_init_def bank1_def bank2_def)

lemma reg_c: "register bank2 (Cell_init 24 12) collision_soup =
   (Suc 0, bank3, (Cell_init 24 12)\<lparr>d := Demographics_init\<lparr>genotype := ''0012aab''\<rparr>\<rparr>)"
  by (simp add: register_def rb3 h3 Cell_init_def Demographics_init_def bank2_def bank3_def
        next_name_def nm2)

lemma triple_seq:
  "register_seq GeneBank_init collision_triple =
     ([(0, (Cell_init 0 12)\<lparr>d := Demographics_init\<lparr>genotype := ''0012aaa''\<rparr>\<rparr>),
       (0, (Cell_init 12 12)\<lparr>d := Demographics_init\<lparr>genotype := ''0012aaa''\<rparr>\<rparr>),
       (Suc 0, (Cell_init 24 12)\<lparr>d := Demographics_init\<lparr>genotype := ''0012aab''\<rparr>\<rparr>)],
      bank3)"
  by (simp add: collision_triple_def reg_a reg_b reg_c)

lemma triple_banks:
  "bank_before GeneBank_init collision_triple (Suc 0) = bank1"
  "bank_before GeneBank_init collision_triple 2 = bank2"
  "bank_before GeneBank_init collision_triple 3 = bank3"
  by (simp_all add: bank_before_def collision_triple_def reg_a reg_b reg_c)

lemma triple_keys:
  "key_at collision_triple 0 = (12, 373)"
  "key_at collision_triple (Suc 0) = (12, 373)"
  "key_at collision_triple 2 = (12, 12)"
  by (simp_all add: key_at_def collision_triple_def reg_key_def Cell_init_def rb1 rb2 rb3 h1 h2 h3)

lemma triple_fits: "\<forall>n. label_count (snd (register_seq GeneBank_init collision_triple)) n \<le> 17576"
  by (simp add: triple_seq label_count_def bank3_def)

text \<open>
  Two creatures whose mother bytes differ, registered into an empty genebank: the
  weighted byte sums agree (\<open>2 * 1 + 0 * 2 = 0 * 1 + 1 * 2\<close>), so both get the name
  \<open>0012aaa\<close> and the second registration raises the population of the genotype whose
  stored genome is that of the first. And the three-letter label repeats after
  \<open>26 ^ 3 = 17576\<close> names: the label minted at counter 17576 is \<open>aaa\<close> again.
\<close>

theorem register_counterexample:
  "read_block collision_soup 0 12 \<noteq> read_block collision_soup 12 12 \<and>
   tagged GeneBank_init collision_pair 0 = ''0012aaa'' \<and>
   tagged GeneBank_init collision_pair 1 = ''0012aaa'' \<and>
   assigned GeneBank_init collision_pair 0 = assigned GeneBank_init collision_pair 1 \<and>
   population (objs (snd (register_seq GeneBank_init collision_pair)) ! 0) = 2 \<and>
   genome (objs (snd (register_seq GeneBank_init collision_pair)) ! 0)
     \<noteq> read_block collision_soup 12 12 \<and>
   fst (next_name \<lparr>genotypes_sc = Map.empty, next_label = 0\<rparr> 12) = ''0012aaa'' \<and>
   fst (next_name \<lparr>genotypes_sc = Map.empty, next_label = 17576\<rparr> 12) = ''0012aaa''"
  by (simp add: rb1 rb2 tagged_def assigned_def collision_pair_def reg_a reg_b bank2_def
        next_name_def label_wraps nm[simplified label_wraps])

theorem register_by_size_and_hash_witness:
  "gb_inv GeneBank_init \<and> gb_hashes GeneBank_init \<and> gb_names GeneBank_init \<and>
   (\<forall>n. label_count (snd (register_seq GeneBank_init collision_triple)) n \<le> 17576) \<and>
   length collision_triple = 3 \<and>
   key_at collision_triple 0 = (12, 373) \<and>
   key_at collision_triple (Suc 0) = (12, 373) \<and>
   key_at collision_triple 2 = (12, 12) \<and>
   assigned GeneBank_init collision_triple 0 = assigned GeneBank_init collision_triple (Suc 0) \<and>
   tagged GeneBank_init collision_triple 0 = tagged GeneBank_init collision_triple (Suc 0) \<and>
   assigned GeneBank_init collision_triple (Suc 0) \<noteq> assigned GeneBank_init collision_triple 2 \<and>
   tagged GeneBank_init collision_triple (Suc 0) \<noteq> tagged GeneBank_init collision_triple 2 \<and>
   population (objs (bank_before GeneBank_init collision_triple 2) ! 0)
     = population (objs (bank_before GeneBank_init collision_triple (Suc 0)) ! 0) + 1 \<and>
   population (objs (bank_before GeneBank_init collision_triple 3) ! 0)
     = population (objs (bank_before GeneBank_init collision_triple 2) ! 0) \<and>
   population (objs (bank_before GeneBank_init collision_triple 3)
                 ! assigned GeneBank_init collision_triple 2) = 1"
proof -
  let ?xs = "collision_triple"
  have len: "length ?xs = 3" by (simp add: collision_triple_def)
  have l1: "Suc 0 < length ?xs" and l2: "2 < length ?xs" by (simp_all add: len)
  have fit: "gb_names GeneBank_init \<and>
             (\<forall>n. label_count (snd (register_seq GeneBank_init ?xs)) n \<le> 17576)"
    using gb_names_init triple_fits by simp
  have lt: "0 < Suc 0" "Suc 0 < 2" by simp_all
  note first = register_by_size_and_hash [OF gb_inv_init gb_hashes_init lt(1) l1]
  note second = register_by_size_and_hash [OF gb_inv_init gb_hashes_init lt(2) l2]
  have a01: "assigned GeneBank_init ?xs 0 = assigned GeneBank_init ?xs (Suc 0)"
    using first by (simp add: triple_keys)
  have t01: "tagged GeneBank_init ?xs 0 = tagged GeneBank_init ?xs (Suc 0)"
    using first by (simp add: triple_keys)
  have a12: "assigned GeneBank_init ?xs (Suc 0) \<noteq> assigned GeneBank_init ?xs 2"
    using second by (simp add: triple_keys)
  have t12: "tagged GeneBank_init ?xs (Suc 0) \<noteq> tagged GeneBank_init ?xs 2"
    using second[THEN conjunct2, THEN conjunct2, THEN conjunct1, rule_format, OF fit]
    by (simp add: triple_keys)
  have look1: "lookup (bank_before GeneBank_init ?xs (Suc 0)) (12, 373) = Some 0"
    by (simp add: triple_banks bank1_def lookup_def)
  have look2: "lookup (bank_before GeneBank_init ?xs 2) (12, 373) = Some 0"
    "lookup (bank_before GeneBank_init ?xs 2) (12, 12) = None"
    by (simp_all add: triple_banks bank2_def lookup_def)
  note pop1 = first[THEN conjunct2, THEN conjunct2, THEN conjunct2, THEN conjunct2,
                    THEN conjunct2, THEN conjunct1, rule_format]
  note pop2 = second[THEN conjunct2, THEN conjunct2, THEN conjunct2, THEN conjunct2,
                     THEN conjunct2, THEN conjunct1, rule_format]
  note new2 = second[THEN conjunct2, THEN conjunct2, THEN conjunct2, THEN conjunct2,
                     THEN conjunct2, THEN conjunct2, rule_format]
  have p1: "population (objs (bank_before GeneBank_init ?xs 2) ! 0)
     = population (objs (bank_before GeneBank_init ?xs (Suc 0)) ! 0) + 1"
    using pop1[OF look1] by (simp add: triple_keys numeral_2_eq_2[symmetric])
  have p2: "population (objs (bank_before GeneBank_init ?xs 3) ! 0)
     = population (objs (bank_before GeneBank_init ?xs 2) ! 0)"
    using pop2[OF look2(1)] by (simp add: triple_keys)
  have "lookup (bank_before GeneBank_init ?xs 2) (key_at ?xs 2) = None"
    using look2(2) by (simp add: triple_keys)
  from new2[OF this]
  have p3: "population (objs (bank_before GeneBank_init ?xs 3) ! assigned GeneBank_init ?xs 2) = 1"
    by simp
  from gb_inv_init gb_hashes_init fit len triple_keys a01 t01 a12 t12 p1 p2 p3
  show ?thesis by simp
qed

section \<open>Template search: where the forward scan starts\<close>



text \<open>
  The byte at \<open>IP + 1 + L\<close> is the one that ended the template loop, so it is neither
  \<open>nop0\<close> nor \<open>nop1\<close>; and when the template fills the whole soup, that address is
  \<open>IP + 1\<close> again, where the template itself starts. In both cases the complement does
  not start there, whatever the soup holds.
\<close>

lemma read_template_nops: "b \<in> set (read_template s n k p) \<Longrightarrow> b = 0 \<or> b = 1"
  by (induction k arbitrary: p) (auto split: if_splits)






lemma template_state_fields:
  "soup (template_state bytes) =
     \<lparr>size_soup = 10, data = bytes, free_blocks = [(5, 5)], owners = [(0, 5, 0)]\<rparr>"
  "soup_size (config (template_state bytes)) = 10"
  "max_dist (template_state bytes) = 5"
  "cells (template_state bytes) 0 = (Cell_init 0 5)\<lparr>cpu := CPU_init\<lparr>ip := 0\<rparr>\<rparr>"
  by (simp_all add: template_state_def make_cell_def Simulation_init_def Let_def
        sched_add_def Scheduler_init_def max_dist_def avg_cell_size_def Config_default_def
        Cell_init_def)

lemma template_example_read:
  "read (soup template_example) 0 = 29" "read (soup template_example) 1 = 0"
  "read (soup template_example) 2 = 14" "read (soup template_example) 3 = 14"
  "read (soup template_example) 4 = 1" "read (soup template_example) 5 = 14"
  "read (soup template_example) 6 = 14" "read (soup template_example) 7 = 14"
  by (simp_all add: template_example_def template_state_fields read_def)

lemma template_far_read:
  "read (soup template_far) 0 = 29" "read (soup template_far) 1 = 0"
  "read (soup template_far) 2 = 14" "read (soup template_far) 3 = 14"
  "read (soup template_far) 4 = 14" "read (soup template_far) 5 = 14"
  "read (soup template_far) 6 = 14" "read (soup template_far) 7 = 14"
  "read (soup template_far) 8 = 1"
  by (simp_all add: template_far_def template_state_fields read_def)

lemma template_example_size:
  "soup_size (config template_example) = 10" "max_dist template_example = 5"
  "soup_size (config template_far) = 10" "max_dist template_far = 5"
  by (simp_all add: template_example_def template_far_def template_state_fields)

lemma template_example_template:
  "template_at template_example 0 = [0]" "template_at template_far 0 = [0]"
  by (simp_all add: template_at_def template_example_size template_example_read
        template_far_read eval_nat_numeral)




text \<open>\<open>adrf\<close> on the example: \<open>A\<close> gets the address, \<open>C\<close> the length, \<open>IP\<close> rests on the last nop.\<close>

lemma adrf_example:
  "adrf template_example 0 =
     Some (template_example\<lparr>cells := (cells template_example)
        (0 := (Cell_init 0 5)\<lparr>cpu := CPU_init\<lparr>ax := 5, cx := 1, ip := 1\<rparr>\<rparr>)\<rparr>)"
proof -
  have ft: "find_template template_example 0 CHR ''f'' = (5, 1)"
    by (simp add: template_example_template template_example_size
        find_template_def forward_checks_def upto_rec1 match_at_def template_example_read)
  have c: "cells template_example 0 = (Cell_init 0 5)\<lparr>cpu := CPU_init\<lparr>ip := 0\<rparr>\<rparr>"
    by (simp add: template_example_def template_state_fields)
  show ?thesis
    by (simp add: adrf_def c ft upd_cell_def skip_template_def
          template_example_size template_example_read eval_nat_numeral CPU_init_def Cell_init_def)
qed

end
